theory Spec2Isabelle
  imports Complex_Main "HOL-Library.AList"
begin

section \<open>Pairwise distance estimation (cogent3/evolve/pairwise\_distance.py)\<close>

text \<open>
  The numpy arrays of the source hold \<open>float64\<close> counts; they are modelled with exact
  real arithmetic. A Python value that is either \<open>None\<close> or a float is a \<open>pyval\<close>;
  \<open>PyNaN\<close> is the float the source obtains from the square root of a negative number.
  Every exception the source can raise is a value of \<open>error\<close>, returned as \<open>Inl\<close>.
  Where numpy divides by zero or takes the logarithm of a number that is not positive it
  warns and yields \<open>inf\<close> or \<open>nan\<close>; the model has the value of the HOL operation there,
  and no property below depends on it.
\<close>

datatype error = IndexError | ValueError | TypeError | KeyError | LinAlgError
  | AssertionError | AttributeError | ZeroDivisionError

datatype pyval = PyNone | PyFloat real | PyNaN

type_synonym matrix = "real list list"

subsection \<open>Array helpers\<close>

text \<open>\<open>zeros((r, c))\<close>, \<open>matrix.sum()\<close>, \<open>diag(matrix)\<close> and the shape of a matrix.\<close>

definition zeros :: "nat \<Rightarrow> nat \<Rightarrow> matrix" where
  "zeros r c = replicate r (replicate c 0)"

definition msum :: "matrix \<Rightarrow> real" where
  "msum m = sum_list (map sum_list m)"

definition ncols :: "matrix \<Rightarrow> nat" where
  "ncols m = (case m of [] \<Rightarrow> 0 | row # _ \<Rightarrow> length row)"

definition diag :: "matrix \<Rightarrow> real list" where
  "diag m = map (\<lambda>i. m ! i ! i) [0..<min (length m) (ncols m)]"

definition is_shape :: "nat \<Rightarrow> nat \<Rightarrow> matrix \<Rightarrow> bool" where
  "is_shape r c m \<longleftrightarrow> length m = r \<and> list_all (\<lambda>row. length row = c) m"

definition nonneg :: "matrix \<Rightarrow> bool" where
  "nonneg m \<longleftrightarrow> list_all (list_all (\<lambda>x. 0 \<le> x)) m"

subsection \<open>\<open>_fill_diversity_matrix\<close>\<close>

text \<open>
  \<open>paired = array([seq1, seq2]).T\<close> pairs the two index sequences positionally (numpy
  refuses rows of different lengths), \<open>paired[paired.min(axis=1) >= 0]\<close> keeps the rows
  whose two indices are both non-negative, and the loop adds one to
  \<open>matrix[a, b]\<close> for each kept row, raising \<open>IndexError\<close> when an index is outside the
  matrix. (The module prefers a compiled \<open>_fill_diversity_matrix\<close> when it can import one;
  this is the Python function, which it falls back to.)
\<close>

definition paired :: "int list \<Rightarrow> int list \<Rightarrow> (nat \<times> nat) list" where
  "paired seq1 seq2 =
     map (\<lambda>(a, b). (nat a, nat b)) (filter (\<lambda>(a, b). min a b \<ge> 0) (zip seq1 seq2))"

definition matrix_incr :: "matrix \<Rightarrow> nat \<Rightarrow> nat \<Rightarrow> error + matrix" where
  "matrix_incr m a b =
     (if a < length m \<and> b < length (m ! a)
      then Inr (m[a := (m ! a)[b := m ! a ! b + 1]])
      else Inl IndexError)"

fun fill_loop :: "matrix \<Rightarrow> (nat \<times> nat) list \<Rightarrow> error + matrix" where
  "fill_loop m [] = Inr m"
| "fill_loop m ((a, b) # ps) =
     (case matrix_incr m a b of Inl e \<Rightarrow> Inl e | Inr m' \<Rightarrow> fill_loop m' ps)"

definition fill_diversity_matrix :: "matrix \<Rightarrow> int list \<Rightarrow> int list \<Rightarrow> error + matrix" where
  "fill_diversity_matrix m seq1 seq2 =
     (if length seq1 \<noteq> length seq2 then Inl ValueError
      else fill_loop m (paired seq1 seq2))"

subsection \<open>Estimators\<close>

type_synonym result = "pyval \<times> pyval \<times> pyval \<times> pyval"

definition invalid :: result where
  "invalid = (PyNone, PyNone, PyNone, PyNone)"

definition hamming :: "matrix \<Rightarrow> result" where
  "hamming m =
     (let total = msum m;
          dist = total - sum_list (diag m)
      in if total = 0 then invalid
         else let p = dist / total
              in (PyFloat total, PyFloat p, PyFloat dist, PyNone))"

definition jc69_from_matrix :: "matrix \<Rightarrow> result" where
  "jc69_from_matrix m =
     (let total = msum m;
          diffs = total - sum_list (diag m)
      in if total = 0 then invalid
         else let p = diffs / total
              in if p \<ge> 0.75 then invalid
                 else let factor = 1 - (4 / 3) * p;
                          dist = - 3.0 * ln factor / 4;
                          var = p * (1 - p) / (factor * factor * total)
                      in (PyFloat total, PyFloat p, PyFloat dist, PyFloat var))"

subsection \<open>More array helpers\<close>

text \<open>
  \<open>a.take(indices)\<close> on a flat array raises \<open>IndexError\<close> for an index outside it
  (the indices of the source are non-negative); \<open>matrix.take\<close> reads the matrix
  flattened row by row. \<open>matrix.sum(axis=0)\<close> are the column sums and
  \<open>matrix.sum(axis=1)\<close> the row sums. Adding two one-dimensional arrays broadcasts an
  array of length one and raises \<open>ValueError\<close> for other unequal lengths.
\<close>

definition np_take :: "'a list \<Rightarrow> nat list \<Rightarrow> error + 'a list" where
  "np_take xs idx =
     (if list_all (\<lambda>i. i < length xs) idx then Inr (map (\<lambda>i. xs ! i) idx)
      else Inl IndexError)"

definition col_sums :: "matrix \<Rightarrow> real list" where
  "col_sums m = map (\<lambda>j. sum_list (map (\<lambda>row. row ! j) m)) [0..<ncols m]"

definition row_sums :: "matrix \<Rightarrow> real list" where
  "row_sums m = map sum_list m"

definition np_add :: "real list \<Rightarrow> real list \<Rightarrow> error + real list" where
  "np_add xs ys =
     (if length xs = length ys then Inr (map2 (+) xs ys)
      else if length xs = 1 then Inr (map (\<lambda>y. hd xs + y) ys)
      else if length ys = 1 then Inr (map (\<lambda>x. x + hd ys) xs)
      else Inl ValueError)"

text \<open>\<open>dot(a, b).diagonal().sum()\<close> for two square matrices of the same size.\<close>

definition dot_trace :: "matrix \<Rightarrow> matrix \<Rightarrow> real" where
  "dot_trace a b =
     sum_list (map (\<lambda>i. sum_list (map (\<lambda>k. a ! i ! k * b ! k ! i) [0..<length b]))
                   [0..<length a])"

subsection \<open>\<open>_tn93_from_matrix\<close>\<close>

text \<open>
  The \<open>freqs\<close> argument is overwritten by the first assignment. Dividing a numpy float
  by zero does not raise (it warns and yields \<open>nan\<close> or \<open>inf\<close>); the quotient
  \<open>freqs / (2 * total)\<close> is computed before \<open>total\<close> is tested and is discarded when
  \<open>total\<close> is zero.
\<close>

definition tn93_from_matrix ::
  "matrix \<Rightarrow> real list \<Rightarrow> nat list \<Rightarrow> nat list \<Rightarrow> nat list \<Rightarrow> nat list \<Rightarrow> nat list
     \<Rightarrow> error + result" where
  "tn93_from_matrix m freqs0 pur_indices pyr_indices pur_coords pyr_coords tv_coords =
     (let total = msum m in
      case np_add (col_sums m) (row_sums m) of Inl e \<Rightarrow> Inl e | Inr fs \<Rightarrow>
      let freqs = map (\<lambda>x. x / (2 * total)) fs in
      if total = 0 then Inr invalid else
      case np_take (concat m) (pur_coords @ pyr_coords @ tv_coords) of Inl e \<Rightarrow> Inl e | Inr alld \<Rightarrow>
      let p = sum_list alld / total in
      case np_take freqs pur_indices of Inl e \<Rightarrow> Inl e | Inr fpur \<Rightarrow>
      let freq_purs = sum_list fpur; prod_purs = prod_list fpur in
      case np_take freqs pyr_indices of Inl e \<Rightarrow> Inl e | Inr fpyr \<Rightarrow>
      let freq_pyrs = sum_list fpyr; prod_pyrs = prod_list fpyr in
      case np_take (concat m) pur_coords of Inl e \<Rightarrow> Inl e | Inr purd \<Rightarrow>
      let pur_ts_diffs = sum_list purd / total in
      case np_take (concat m) pyr_coords of Inl e \<Rightarrow> Inl e | Inr pyrd \<Rightarrow>
      let pyr_ts_diffs = sum_list pyrd / total in
      case np_take (concat m) tv_coords of Inl e \<Rightarrow> Inl e | Inr tvd \<Rightarrow>
      let tv_diffs = sum_list tvd / total;
          coeff1 = 2 * prod_purs / freq_purs;
          coeff2 = 2 * prod_pyrs / freq_pyrs;
          coeff3 = 2 * (freq_purs * freq_pyrs
                        - (prod_purs * freq_pyrs / freq_purs)
                        - (prod_pyrs * freq_purs / freq_pyrs));
          term1 = 1 - pur_ts_diffs / coeff1 - tv_diffs / (2 * freq_purs);
          term2 = 1 - pyr_ts_diffs / coeff2 - tv_diffs / (2 * freq_pyrs);
          term3 = 1 - tv_diffs / (2 * freq_purs * freq_pyrs)
      in if term1 \<le> 0 \<or> term2 \<le> 0 \<or> term3 \<le> 0 then Inr invalid
         else
           let dist = - coeff1 * ln term1 - coeff2 * ln term2 - coeff3 * ln term3;
               v1 = 1 / term1;
               v2 = 1 / term2;
               v3 = 1 / term3;
               v4 = (coeff1 * v1 / (2 * freq_purs))
                    + (coeff2 * v2 / (2 * freq_pyrs))
                    + (coeff3 * v3 / (2 * freq_purs * freq_pyrs));
               var = (v1\<^sup>2 * pur_ts_diffs + v2\<^sup>2 * pyr_ts_diffs + v4\<^sup>2 * tv_diffs
                      - (v1 * pur_ts_diffs + v2 * pyr_ts_diffs + v4 * tv_diffs)\<^sup>2) / total
           in Inr (PyFloat total, PyFloat p, PyFloat dist, PyFloat var))"

subsection \<open>\<open>_logdetcommon\<close>, \<open>_paralinear\<close> and \<open>_logdet\<close>\<close>

text \<open>
  \<open>numpy.linalg.det\<close> and \<open>numpy.linalg.inv\<close> are library functions: the model takes
  them as the parameters \<open>np_det\<close> and \<open>np_inv\<close>, each of which may raise (\<open>LinAlgError\<close>).
  \<open>frequency[(frequency == 0) * eye(*matrix.shape, dtype=bool)] = 0.5\<close> overwrites the
  entries that are zero and lie on the diagonal; \<open>frequency /= frequency.sum()\<close> divides
  every entry by the sum of that matrix.
\<close>

definition replace_zero_diag :: "matrix \<Rightarrow> matrix" where
  "replace_zero_diag m =
     map (\<lambda>(i, row). map (\<lambda>(j, x). if x = 0 \<and> i = j then 0.5 else x) (enumerate 0 row))
         (enumerate 0 m)"

definition normalise :: "matrix \<Rightarrow> matrix" where
  "normalise f = map (map (\<lambda>x. x / msum f)) f"

definition frequency_of :: "matrix \<Rightarrow> matrix" where
  "frequency_of m = normalise (replace_zero_diag m)"

type_synonym common = "pyval \<times> pyval \<times> matrix option \<times> real list list option \<times> pyval"

definition invalid5 :: common where
  "invalid5 = (PyNone, PyNone, None, None, PyNone)"

definition logdetcommon ::
  "(matrix \<Rightarrow> error + real) \<Rightarrow> (matrix \<Rightarrow> error + matrix) \<Rightarrow> matrix \<Rightarrow> error + common" where
  "logdetcommon np_det np_inv m =
     (let total = msum m;
          diffs = total - sum_list (diag m)
      in if total = 0 then Inr invalid5
         else
           let p = diffs / total in
           if diffs = 0 then Inr invalid5
           else
             let frequency = frequency_of m in
             case np_det frequency of Inl e \<Rightarrow> Inl e | Inr d \<Rightarrow>
             if d \<le> 0 then Inr invalid5
             else
               case np_inv frequency of Inl e \<Rightarrow> Inl e | Inr fi \<Rightarrow>
               let M_matrix = map (map (\<lambda>x. x\<^sup>2)) fi;
                   freqs = [col_sums frequency, row_sums frequency];
                   var_term = dot_trace M_matrix frequency
               in Inr (PyFloat total, PyFloat p, Some frequency, Some freqs, PyFloat var_term))"

text \<open>
  Both callers unpack the five values and test \<open>frequency is None\<close>. \<open>freqs[0] * freqs[1]\<close>
  is the elementwise product of the column sums and the row sums, and \<open>sum(freqs)\<close> their
  elementwise sum; \<open>r = matrix.shape[0]\<close> is the number of rows.
\<close>

definition paralinear ::
  "(matrix \<Rightarrow> error + real) \<Rightarrow> (matrix \<Rightarrow> error + matrix) \<Rightarrow> matrix \<Rightarrow> error + result" where
  "paralinear np_det np_inv m =
     (case logdetcommon np_det np_inv m of Inl e \<Rightarrow> Inl e
      | Inr (tot, p, frequency, freqs, var_term) \<Rightarrow>
        (case frequency of None \<Rightarrow> Inr invalid
         | Some fr \<Rightarrow>
           (case (tot, p, freqs, var_term) of
              (PyFloat n, PyFloat pv, Some [f0, f1], PyFloat vt) \<Rightarrow>
                (case np_det fr of Inl e \<Rightarrow> Inl e | Inr d \<Rightarrow>
                 let r = real (length m);
                     ff = map2 (*) f0 f1;
                     d_xy = - ln (d / sqrt (prod_list ff)) / r;
                     var = (vt - sum_list (map (\<lambda>x. 1 / sqrt x) ff)) / (r\<^sup>2 * n)
                 in Inr (PyFloat n, PyFloat pv, PyFloat d_xy, PyFloat var))
            | _ \<Rightarrow> Inl TypeError)))"

definition logdet ::
  "(matrix \<Rightarrow> error + real) \<Rightarrow> (matrix \<Rightarrow> error + matrix) \<Rightarrow> matrix \<Rightarrow> bool
     \<Rightarrow> error + result" where
  "logdet np_det np_inv m use_tk_adjustment =
     (case logdetcommon np_det np_inv m of Inl e \<Rightarrow> Inl e
      | Inr (tot, p, frequency, freqs, var_term) \<Rightarrow>
        (case frequency of None \<Rightarrow> Inr invalid
         | Some fr \<Rightarrow>
           (case (tot, p, freqs, var_term) of
              (PyFloat n, PyFloat pv, Some [f0, f1], PyFloat vt) \<Rightarrow>
                (case np_det fr of Inl e \<Rightarrow> Inl e | Inr d \<Rightarrow>
                 let r = real (length m) in
                 if use_tk_adjustment then
                   let coeff = (sum_list (map (\<lambda>x. x\<^sup>2) (map2 (+) f0 f1)) / 4 - 1) / (r - 1);
                       d_xy = coeff * ln (d / sqrt (prod_list (map2 (*) f0 f1)))
                   in Inr (PyFloat n, PyFloat pv, PyFloat d_xy, PyNone)
                 else
                   let d_xy = - ln d / r - ln r;
                       var = (vt / r\<^sup>2 - 1) / n
                   in Inr (PyFloat n, PyFloat pv, PyFloat d_xy, PyFloat var))
            | _ \<Rightarrow> Inl TypeError)))"

subsection \<open>The calculator object\<close>

text \<open>
  A Python \<open>dict\<close> is an association list in insertion order: \<open>d[k] = v\<close> is
  \<open>AList.update k v d\<close> (an existing key keeps its place), and \<open>d.get(k, None)\<close> is
  \<open>dict_get\<close>. \<open>Stats\<close> is the named tuple of \<open>run\<close>. The fields of \<open>calc\<close> are the
  attributes of \<open>_PairwiseDistance\<close> that the modelled methods use; an attribute that
  is \<open>None\<close> before the first alignment is an \<open>option\<close>. \<open>func\<close> is \<open>self.func\<close> applied
  to \<open>self._func_args\<close>.
\<close>

type_synonym name = string

record stats =
  stats_length :: pyval
  fraction_variable :: pyval
  stats_dist :: pyval
  variance :: pyval

type_synonym 'v pairs = "((name \<times> name) \<times> 'v) list"

definition dict_get :: "('k \<times> pyval) list \<Rightarrow> 'k \<Rightarrow> pyval" where
  "dict_get d k = (case map_of d k of None \<Rightarrow> PyNone | Some v \<Rightarrow> v)"

record calc =
  p_dim :: nat
  char_to_indices :: "int list"
  names :: "name list option"
  indexed_seqs :: "int list list option"
  p_dists :: "stats pairs option"
  p_dupes :: "name list option"
  p_duped :: "(name \<times> name list) list option"
  func :: "matrix \<Rightarrow> error + result"

text \<open>
  Of an alignment the source uses its names, \<open>get_gapped_seq\<close> and the outcome of the
  assertion \<open>isinstance(alignment.moltype, type(self.moltype))\<close>.
\<close>

record alignment =
  aln_names :: "name list"
  get_gapped_seq :: "name \<Rightarrow> string"
  moltype_is_instance :: bool

fun map_err :: "('a \<Rightarrow> error + 'b) \<Rightarrow> 'a list \<Rightarrow> error + 'b list" where
  "map_err f [] = Inr []"
| "map_err f (x # xs) =
     (case f x of Inl e \<Rightarrow> Inl e
      | Inr y \<Rightarrow> (case map_err f xs of Inl e \<Rightarrow> Inl e | Inr ys \<Rightarrow> Inr (y # ys)))"

fun fold_err :: "('a \<Rightarrow> 's \<Rightarrow> error + 's) \<Rightarrow> 'a list \<Rightarrow> 's \<Rightarrow> error + 's" where
  "fold_err f [] s = Inr s"
| "fold_err f (x # xs) s =
     (case f x s of Inl e \<Rightarrow> Inl e | Inr s' \<Rightarrow> fold_err f xs s')"

definition seq_to_indices :: "string \<Rightarrow> int list \<Rightarrow> error + int list" where
  "seq_to_indices seq char_to_index = np_take char_to_index (map of_char seq)"

text \<open>
  \<open>array(indexed_seqs)\<close> is a two-dimensional array: the gapped sequences of an alignment
  have one length, and numpy refuses rows of different lengths.
\<close>

definition convert_seqs_to_indices :: "calc \<Rightarrow> alignment \<Rightarrow> error + calc" where
  "convert_seqs_to_indices self alignment =
     (if \<not> moltype_is_instance alignment then Inl AssertionError
      else
        case map_err (\<lambda>name. seq_to_indices (get_gapped_seq alignment name) (char_to_indices self))
               (aln_names alignment) of
          Inl e \<Rightarrow> Inl e
        | Inr seqs \<Rightarrow>
            if \<exists>a \<in> set seqs. \<exists>b \<in> set seqs. length a \<noteq> length b then Inl ValueError
            else Inr (self\<lparr>p_dists := Some [], names := Some (aln_names alignment),
                           indexed_seqs := Some seqs\<rparr>))"

subsection \<open>\<open>_PairwiseDistance.run\<close>\<close>

text \<open>
  The state of the two loops: the set \<open>dupes\<close> (in insertion order), the
  \<open>defaultdict\<close> \<open>duped\<close>, \<open>self._dists\<close>, the counter \<open>done\<close> and the calls of
  \<open>ui.display\<close> made so far (message and progress value, latest last).
\<close>

record run_state =
  dupes :: "nat list"
  duped :: "(nat \<times> nat list) list"
  dists :: "stats pairs option"
  done_count :: real
  displayed :: "(string \<times> real) list"

definition duped_append :: "(nat \<times> nat list) list \<Rightarrow> nat \<Rightarrow> nat \<Rightarrow> (nat \<times> nat list) list" where
  "duped_append d i j =
     (case map_of d i of None \<Rightarrow> d @ [(i, [j])] | Some v \<Rightarrow> AList.update i (v @ [j]) d)"

text \<open>
  \<open>(matrix[off_diag] > 0).any()\<close>, where \<open>off_diag\<close> holds the coordinates \<open>(i, j)\<close> with
  \<open>i \<noteq> j\<close>. For a dimension below two there is no such coordinate, \<open>off_diag\<close> is the
  empty tuple and \<open>matrix[()]\<close> is the whole matrix.
\<close>

definition any_off_diag_positive :: "nat \<Rightarrow> matrix \<Rightarrow> bool" where
  "any_off_diag_positive K m =
     (if K < 2 then list_ex (list_ex (\<lambda>x. x > 0)) m
      else list_ex (\<lambda>i. list_ex (\<lambda>j. i \<noteq> j \<and> m ! i ! j > 0) [0..<K]) [0..<K])"

definition nth_err :: "'a list \<Rightarrow> nat \<Rightarrow> error + 'a" where
  "nth_err xs i = (if i < length xs then Inr (xs ! i) else Inl IndexError)"

text \<open>The body of the inner loop for the pair \<open>(i, j)\<close>.\<close>

definition pair_step ::
  "calc \<Rightarrow> name list \<Rightarrow> real \<Rightarrow> nat \<Rightarrow> int list \<Rightarrow> nat \<Rightarrow> run_state \<Rightarrow> error + run_state" where
  "pair_step self ns to_do i s1 j st =
     (if j \<in> set (dupes st) then Inr st
      else
        let name_1 = ns ! i; name_2 = ns ! j in
        if to_do = 0 then Inl ZeroDivisionError
        else
          let st = st\<lparr>displayed := displayed st @ [(name_1 @ '' vs '' @ name_2, done_count st / to_do)],
                       done_count := done_count st + 1\<rparr>
          in
          case indexed_seqs self of None \<Rightarrow> Inl TypeError | Some seqs \<Rightarrow>
          case nth_err seqs j of Inl e \<Rightarrow> Inl e | Inr s2 \<Rightarrow>
          case fill_diversity_matrix (zeros (p_dim self) (p_dim self)) s1 s2 of Inl e \<Rightarrow> Inl e
          | Inr matrix \<Rightarrow>
            if \<not> any_off_diag_positive (p_dim self) matrix
            then Inr (st\<lparr>dupes := dupes st @ [j], duped := duped_append (duped st) i j\<rparr>)
            else
              case func self matrix of Inl e \<Rightarrow> Inl e
              | Inr (tot, p, d, var) \<Rightarrow>
                let result = \<lparr>stats_length = tot, fraction_variable = p, stats_dist = d,
                                variance = var\<rparr>
                in case dists st of None \<Rightarrow> Inl TypeError
                   | Some ds \<Rightarrow>
                       Inr (st\<lparr>dists := Some (AList.update (name_2, name_1) result
                                                 (AList.update (name_1, name_2) result ds))\<rparr>))"

text \<open>The body of the outer loop for the row \<open>i\<close>.\<close>

definition row_step ::
  "calc \<Rightarrow> name list \<Rightarrow> real \<Rightarrow> nat \<Rightarrow> run_state \<Rightarrow> error + run_state" where
  "row_step self ns to_do i st =
     (if i \<in> set (dupes st) then Inr st
      else
        case indexed_seqs self of None \<Rightarrow> Inl TypeError | Some seqs \<Rightarrow>
        case nth_err seqs i of Inl e \<Rightarrow> Inl e | Inr s1 \<Rightarrow>
        fold_err (pair_step self ns to_do i s1) [i + 1..<length ns] st)"

text \<open>
  After the loops \<open>self._dupes\<close> and \<open>self._duped\<close> get the names of the recorded indices,
  and every key of \<open>self._dists\<close> that contains the name of a duplicate is deleted.
\<close>

definition finish_run :: "calc \<Rightarrow> name list \<Rightarrow> run_state \<Rightarrow> error + calc" where
  "finish_run self ns st =
     (let dupe_names = map (\<lambda>i. ns ! i) (dupes st);
          self = self\<lparr>p_dists := dists st,
                       p_dupes := (if dupe_names = [] then None else Some dupe_names)\<rparr>
      in if duped st = [] then Inr self
         else
           let d = fold (\<lambda>(k, v) d. AList.update (ns ! k) (map (\<lambda>i. ns ! i) v) d) (duped st) []
           in case dists st of None \<Rightarrow> Inl AttributeError
              | Some ds \<Rightarrow>
                  Inr (self\<lparr>p_duped := Some d,
                             p_dists := Some (filter (\<lambda>((x, y), v). x \<notin> set dupe_names
                                                          \<and> y \<notin> set dupe_names) ds)\<rparr>))"

definition run :: "calc \<Rightarrow> alignment option \<Rightarrow> error + calc \<times> (string \<times> real) list" where
  "run self alignment =
     (let self = self\<lparr>p_dupes := None, p_duped := None\<rparr> in
      case (case alignment of None \<Rightarrow> Inr self | Some a \<Rightarrow> convert_seqs_to_indices self a) of
        Inl e \<Rightarrow> Inl e
      | Inr self \<Rightarrow>
          case names self of None \<Rightarrow> Inl TypeError
          | Some ns \<Rightarrow>
              let to_do = (real (length ns) * real (length ns) - 1) / 2 in
              case fold_err (row_step self ns to_do) [0..<length ns - 1]
                     \<lparr>dupes = [], duped = [], dists = p_dists self, done_count = 0, displayed = []\<rparr> of
                Inl e \<Rightarrow> Inl e
              | Inr st \<Rightarrow>
                  (case finish_run self ns st of Inl e \<Rightarrow> Inl e
                   | Inr self \<Rightarrow> Inr (self, displayed st)))"

subsection \<open>\<open>_expand\<close> and the views\<close>

definition redundants_of :: "(name \<times> name list) list \<Rightarrow> (name \<times> name) list" where
  "redundants_of duplicated =
     fold (\<lambda>(k, rs) red. fold (\<lambda>r red. AList.update r k red) rs red) duplicated []"

definition expand_name :: "name \<Rightarrow> name \<Rightarrow> name \<Rightarrow> pyval pairs \<Rightarrow> pyval pairs" where
  "expand_name add alias name pwise =
     (if name = add then pwise
      else
        let val = (if name = alias then PyFloat 0 else dict_get pwise (alias, name))
        in AList.update (name, add) val (AList.update (add, name) val pwise))"

definition expand :: "calc \<Rightarrow> pyval pairs \<Rightarrow> error + pyval pairs" where
  "expand self pwise =
     (case p_duped self of None \<Rightarrow> Inr pwise
      | Some duplicated \<Rightarrow>
          if duplicated = [] then Inr pwise
          else
            let redundants = redundants_of duplicated in
            case names self of None \<Rightarrow> Inl TypeError
            | Some ns \<Rightarrow>
                Inr (fold (\<lambda>(add, alias) pwise. fold (expand_name add alias) ns pwise)
                       redundants pwise))"

definition get_pairwise_distances :: "calc \<Rightarrow> bool \<Rightarrow> error + pyval pairs option" where
  "get_pairwise_distances self include_duplicates =
     (case p_dists self of None \<Rightarrow> Inr None
      | Some ds \<Rightarrow>
          let dists = map (\<lambda>(k, v). (k, stats_dist v)) ds in
          if include_duplicates
          then (case expand self dists of Inl e \<Rightarrow> Inl e | Inr dists \<Rightarrow> Inr (Some dists))
          else Inr (Some dists))"

text \<open>
  \<open>numpy.sqrt\<close> raises \<open>TypeError\<close> on \<open>None\<close> and yields \<open>nan\<close> on a negative float.
\<close>

definition np_sqrt :: "pyval \<Rightarrow> error + pyval" where
  "np_sqrt v =
     (case v of PyNone \<Rightarrow> Inl TypeError
      | PyFloat x \<Rightarrow> Inr (if x < 0 then PyNaN else PyFloat (sqrt x))
      | PyNaN \<Rightarrow> Inr PyNaN)"

text \<open>
  \<open>_make_stat_table\<close>: the square array of the values, row by row, each row with its
  name. The array starts as zeros; \<open>stats[(n1, n2)]\<close> raises \<open>KeyError\<close> for a missing
  pair. (The header and \<open>LoadTable\<close> belong to the table library.)
\<close>

definition table_cell ::
  "pyval pairs \<Rightarrow> name list \<Rightarrow> nat \<Rightarrow> nat \<Rightarrow> pyval list list \<Rightarrow> error + pyval list list" where
  "table_cell stats ns i j rows =
     (case map_of stats (ns ! i, ns ! j) of None \<Rightarrow> Inl KeyError
      | Some val \<Rightarrow>
          let rows = rows[i := (rows ! i)[j := val]]
          in Inr (rows[j := (rows ! j)[i := val]]))"

definition make_stat_table :: "pyval pairs \<Rightarrow> name list \<Rightarrow> error + (name \<times> pyval list) list" where
  "make_stat_table stats ns =
     (let n = length ns in
      case fold_err (\<lambda>i rows. fold_err (table_cell stats ns i) [i + 1..<n] rows) [0..<n - 1]
             (replicate n (replicate n (PyFloat 0))) of
        Inl e \<Rightarrow> Inl e
      | Inr rows \<Rightarrow> Inr (zip ns rows))"

definition stat_table :: "calc \<Rightarrow> pyval pairs \<Rightarrow> error + (name \<times> pyval list) list option" where
  "stat_table self stats =
     (case expand self stats of Inl e \<Rightarrow> Inl e
      | Inr stats \<Rightarrow>
          (case names self of None \<Rightarrow> Inl TypeError
           | Some ns \<Rightarrow>
               (case make_stat_table stats ns of Inl e \<Rightarrow> Inl e | Inr t \<Rightarrow> Inr (Some t))))"

text \<open>The properties \<open>dists\<close>, \<open>stderr\<close>, \<open>variances\<close>, \<open>proportions\<close> and \<open>lengths\<close>.\<close>

definition dists_table :: "calc \<Rightarrow> error + (name \<times> pyval list) list option" where
  "dists_table self =
     (case p_dists self of None \<Rightarrow> Inr None
      | Some ds \<Rightarrow> stat_table self (map (\<lambda>(k, v). (k, stats_dist v)) ds))"

definition stderr :: "calc \<Rightarrow> error + (name \<times> pyval list) list option" where
  "stderr self =
     (case p_dists self of None \<Rightarrow> Inr None
      | Some ds \<Rightarrow>
          (case map_err (\<lambda>(k, v). case np_sqrt (variance v) of Inl e \<Rightarrow> Inl e
                                    | Inr r \<Rightarrow> Inr (k, r)) ds of
             Inl e \<Rightarrow> Inl e
           | Inr stats \<Rightarrow> stat_table self stats))"

definition variances :: "calc \<Rightarrow> error + (name \<times> pyval list) list option" where
  "variances self =
     (case p_dists self of None \<Rightarrow> Inr None
      | Some ds \<Rightarrow> stat_table self (map (\<lambda>(k, v). (k, variance v)) ds))"

definition proportions :: "calc \<Rightarrow> error + (name \<times> pyval list) list option" where
  "proportions self =
     (case p_dists self of None \<Rightarrow> Inr None
      | Some ds \<Rightarrow> stat_table self (map (\<lambda>(k, v). (k, fraction_variable v)) ds))"

definition lengths :: "calc \<Rightarrow> error + (name \<times> pyval list) list option" where
  "lengths self =
     (case p_dists self of None \<Rightarrow> Inr None
      | Some ds \<Rightarrow> stat_table self (map (\<lambda>(k, v). (k, stats_length v)) ds))"

subsection \<open>\<open>get_calculator\<close>\<close>

text \<open>
  A string is a list of characters with code points below 256; \<open>str.lower\<close> maps the
  upper-case letters among them (\<open>A\<close> to \<open>Z\<close>, and the accented capitals \<open>0xC0\<close> to \<open>0xDE\<close>
  except the multiplication sign \<open>0xD7\<close>) to the letter 32 code points above. The classes
  of \<open>_calculators\<close> are the constructors of \<open>calculator\<close>; calling a class with the
  remaining arguments is the parameter \<open>call_class\<close>, which may itself raise.
\<close>

datatype calculator = ParalinearPair | LogDetPair | JC69Pair | TN93Pair | HammingPair

definition calculators :: "(string \<times> calculator) list" where
  "calculators =
     [(''paralinear'', ParalinearPair), (''logdet'', LogDetPair), (''jc69'', JC69Pair),
      (''tn93'', TN93Pair), (''hamming'', HammingPair)]"

definition lower_char :: "char \<Rightarrow> char" where
  "lower_char c =
     (let n = (of_char c :: nat)
      in if (65 \<le> n \<and> n \<le> 90) \<or> (192 \<le> n \<and> n \<le> 222 \<and> n \<noteq> 215) then char_of (n + 32)
         else c)"

definition str_lower :: "string \<Rightarrow> string" where
  "str_lower s = map lower_char s"

definition get_calculator ::
  "(calculator \<Rightarrow> 'args \<Rightarrow> error + 'obj) \<Rightarrow> string \<Rightarrow> 'args \<Rightarrow> error + 'obj" where
  "get_calculator call_class name args =
     (let name = str_lower name
      in case map_of calculators name of
           None \<Rightarrow> Inl ValueError
         | Some calc \<Rightarrow> call_class calc args)"

subsection \<open>Symmetry of a dictionary of pairs\<close>

text \<open>
  A dictionary keyed by pairs of names is symmetric when both orderings of every pair are
  bound alike: both missing, or both present with the same value.
\<close>

definition symmetric_pairs :: "'v pairs \<Rightarrow> bool" where
  "symmetric_pairs d \<longleftrightarrow> (\<forall>x y. map_of d (x, y) = map_of d (y, x))"

text \<open>
  A table of \<open>_make_stat_table\<close> is symmetric when the value in row \<open>a\<close>, column \<open>b\<close> is the
  value in row \<open>b\<close>, column \<open>a\<close>; \<open>square_sym\<close> is the same for the array of the values
  while it is filled.
\<close>

definition symmetric_table :: "(name \<times> pyval list) list \<Rightarrow> bool" where
  "symmetric_table t \<longleftrightarrow>
     (\<forall>a < length t. \<forall>b < length t. snd (t ! a) ! b = snd (t ! b) ! a)"

definition square_sym :: "nat \<Rightarrow> pyval list list \<Rightarrow> bool" where
  "square_sym n rows \<longleftrightarrow>
     length rows = n \<and> (\<forall>r < n. length (rows ! r) = n)
     \<and> (\<forall>a < n. \<forall>b < n. rows ! a ! b = rows ! b ! a)"

definition sym_opt :: "'v pairs option \<Rightarrow> bool" where
  "sym_opt d \<longleftrightarrow> (\<forall>ds. d = Some ds \<longrightarrow> symmetric_pairs ds)"

text \<open>
  The name that stands for a name in \<open>_expand\<close>: the alias of a redundant name, and the name
  itself otherwise.
\<close>

definition representative :: "(name \<times> name) list \<Rightarrow> name \<Rightarrow> name" where
  "representative redundants z = (case map_of redundants z of None \<Rightarrow> z | Some alias \<Rightarrow> alias)"

text \<open>
  Invariants of the loops of \<open>run\<close> over \<open>n\<close> names. \<open>dup_inv\<close>: the keys of \<open>duped\<close> are
  distinct indices below \<open>n\<close> that are not duplicates, the lists of different keys are
  disjoint, and the members of the lists are exactly the members of \<open>dupes\<close>.
  \<open>pairs_done\<close>: every pair \<open>a < b\<close> in a row before \<open>i\<close>, or in row \<open>i\<close> before column \<open>j\<close>,
  has a duplicate member or is stored.
\<close>

definition dup_inv :: "nat \<Rightarrow> run_state \<Rightarrow> bool" where
  "dup_inv n st \<longleftrightarrow>
     distinct (map fst (duped st))
     \<and> (\<forall>(k, vs) \<in> set (duped st). k \<notin> set (dupes st) \<and> k < n \<and> set vs \<subseteq> set (dupes st))
     \<and> (\<forall>(k, vs) \<in> set (duped st). \<forall>(k', vs') \<in> set (duped st).
           k \<noteq> k' \<longrightarrow> set vs \<inter> set vs' = {})
     \<and> (\<forall>j \<in> set (dupes st). j < n \<and> (\<exists>(k, vs) \<in> set (duped st). j \<in> set vs))"

definition stored :: "name list \<Rightarrow> run_state \<Rightarrow> nat \<Rightarrow> nat \<Rightarrow> bool" where
  "stored ns st a b \<longleftrightarrow>
     a \<in> set (dupes st) \<or> b \<in> set (dupes st)
     \<or> (\<exists>ds v. dists st = Some ds \<and> map_of ds (ns ! a, ns ! b) = Some v)"

definition pairs_done :: "name list \<Rightarrow> nat \<Rightarrow> nat \<Rightarrow> run_state \<Rightarrow> bool" where
  "pairs_done ns i j st \<longleftrightarrow>
     (\<forall>a b. a < b \<and> b < length ns \<and> (a < i \<or> (a = i \<and> b < j)) \<longrightarrow> stored ns st a b)"

section \<open>Properties\<close>

subsection \<open>Sums of matrices\<close>

lemma sum_list_upd:
  fixes xs :: "real list"
  shows "k < length xs \<Longrightarrow> sum_list (xs[k := v]) = sum_list xs - xs ! k + v"
  by (induction xs arbitrary: k) (auto split: nat.splits)

lemma msum_incr:
  assumes "a < length m" "b < length (m ! a)"
  shows "msum (m[a := (m ! a)[b := m ! a ! b + 1]]) = msum m + 1"
proof -
  have "map sum_list (m[a := (m ! a)[b := m ! a ! b + 1]])
        = (map sum_list m)[a := sum_list ((m ! a)[b := m ! a ! b + 1])]"
    by (simp add: map_update)
  moreover have "sum_list ((m ! a)[b := m ! a ! b + 1]) = sum_list (m ! a) + 1"
    using assms(2) by (simp add: sum_list_upd)
  ultimately show ?thesis
    using assms(1) by (simp add: msum_def sum_list_upd)
qed

lemma is_shape_incr:
  assumes "is_shape r c m"
  shows "is_shape r c (m[a := (m ! a)[b := v]])"
proof (cases "a < length m")
  case True
  then have "length (m ! a) = c"
    using assms by (simp add: is_shape_def list_all_length)
  then show ?thesis
    using assms True by (auto simp: is_shape_def list_all_length nth_list_update)
next
  case False
  then show ?thesis using assms by (simp add: list_update_beyond)
qed

lemma is_shape_zeros: "is_shape r c (zeros r c)"
  by (simp add: is_shape_def zeros_def list_all_length)

lemma msum_zeros: "msum (zeros r c) = 0"
  by (simp add: msum_def zeros_def sum_list_replicate)

lemma msum_sum:
  assumes "is_shape r c m"
  shows "msum m = (\<Sum>i<r. \<Sum>j<c. m ! i ! j)"
proof -
  have "msum m = (\<Sum>i<r. sum_list (m ! i))"
    using assms by (simp add: msum_def is_shape_def sum_list_sum_nth atLeast0LessThan)
  also have "\<dots> = (\<Sum>i<r. \<Sum>j<c. m ! i ! j)"
    using assms
    by (intro sum.cong) (auto simp: is_shape_def list_all_length sum_list_sum_nth atLeast0LessThan)
  finally show ?thesis .
qed

lemma ncols_shape: "is_shape r c m \<Longrightarrow> 0 < r \<Longrightarrow> ncols m = c"
  by (cases m) (auto simp: is_shape_def ncols_def)

lemma trace_sum:
  assumes "is_shape K K m"
  shows "sum_list (diag m) = (\<Sum>i<K. m ! i ! i)"
proof (cases "K = 0")
  case True
  then show ?thesis using assms by (simp add: diag_def is_shape_def)
next
  case False
  then have "min (length m) (ncols m) = K"
    using assms ncols_shape[OF assms] by (simp add: is_shape_def)
  then show ?thesis
    by (simp add: diag_def sum_list_sum_nth atLeast0LessThan)
qed

lemma nonneg_nth: "is_shape r c m \<Longrightarrow> nonneg m \<Longrightarrow> i < r \<Longrightarrow> j < c \<Longrightarrow> 0 \<le> m ! i ! j"
  by (simp add: is_shape_def nonneg_def list_all_length)

lemma diffs_sum:
  assumes "is_shape K K m"
  shows "msum m - sum_list (diag m) = (\<Sum>i<K. \<Sum>j\<in>{..<K} - {i}. m ! i ! j)"
proof -
  have "(\<Sum>j<K. m ! i ! j) = m ! i ! i + (\<Sum>j\<in>{..<K} - {i}. m ! i ! j)" if "i < K" for i
    using that by (simp add: sum.remove)
  then have "(\<Sum>i<K. \<Sum>j<K. m ! i ! j)
             = (\<Sum>i<K. m ! i ! i + (\<Sum>j\<in>{..<K} - {i}. m ! i ! j))"
    by (intro sum.cong) auto
  then show ?thesis
    by (simp add: msum_sum[OF assms] trace_sum[OF assms] sum.distrib)
qed

lemma diffs_nonneg:
  assumes "is_shape K K m" "nonneg m"
  shows "0 \<le> msum m - sum_list (diag m)"
  unfolding diffs_sum[OF assms(1)]
  by (intro sum_nonneg) (auto intro: nonneg_nth[OF assms])

lemma trace_nonneg:
  assumes "is_shape K K m" "nonneg m"
  shows "0 \<le> sum_list (diag m)"
  unfolding trace_sum[OF assms(1)]
  by (intro sum_nonneg) (auto intro: nonneg_nth[OF assms])

lemma diffs_zero_iff:
  assumes "is_shape K K m" "nonneg m"
  shows "msum m - sum_list (diag m) = 0 \<longleftrightarrow> (\<forall>i<K. \<forall>j<K. i \<noteq> j \<longrightarrow> m ! i ! j = 0)"
proof -
  have inner: "(\<Sum>j\<in>{..<K} - {i}. m ! i ! j) = 0 \<longleftrightarrow> (\<forall>j<K. i \<noteq> j \<longrightarrow> m ! i ! j = 0)"
    if "i < K" for i
    using that by (subst sum_nonneg_eq_0_iff) (auto intro: nonneg_nth[OF assms])
  have "(\<Sum>i<K. \<Sum>j\<in>{..<K} - {i}. m ! i ! j) = 0
        \<longleftrightarrow> (\<forall>i<K. (\<Sum>j\<in>{..<K} - {i}. m ! i ! j) = 0)"
    by (subst sum_nonneg_eq_0_iff) (auto intro!: sum_nonneg nonneg_nth[OF assms])
  then show ?thesis
    unfolding diffs_sum[OF assms(1)] using inner by auto
qed

subsection \<open>The diversity matrix\<close>

lemma fill_loop_sum:
  assumes "is_shape K K m" "\<forall>(a, b) \<in> set ps. a < K \<and> b < K"
  shows "\<exists>m'. fill_loop m ps = Inr m' \<and> is_shape K K m'
            \<and> msum m' = msum m + real (length ps)"
  using assms
proof (induction ps arbitrary: m)
  case Nil
  then show ?case by simp
next
  case (Cons p ps)
  obtain a b where p: "p = (a, b)" by (cases p)
  from Cons.prems p have ab: "a < K" "b < K" by auto
  from Cons.prems(1) ab have la: "a < length m" and lb: "b < length (m ! a)"
    by (auto simp: is_shape_def list_all_length)
  let ?m = "m[a := (m ! a)[b := m ! a ! b + 1]]"
  have step: "matrix_incr m a b = Inr ?m"
    using la lb by (simp add: matrix_incr_def)
  have sh: "is_shape K K ?m" using Cons.prems(1) by (rule is_shape_incr)
  from Cons.IH[OF sh] Cons.prems(2) obtain m' where
    m': "fill_loop ?m ps = Inr m'" "is_shape K K m'" "msum m' = msum ?m + real (length ps)"
    by auto
  show ?case using m' step p msum_incr[OF la lb] by simp
qed

lemma length_paired:
  "length (paired seq1 seq2) = length (filter (\<lambda>(a, b). 0 \<le> a \<and> 0 \<le> b) (zip seq1 seq2))"
proof -
  have "(\<lambda>(a::int, b::int). min a b \<ge> 0) = (\<lambda>(a, b). 0 \<le> a \<and> 0 \<le> b)"
    by (auto simp: fun_eq_iff)
  then show ?thesis by (simp add: paired_def)
qed

lemma paired_bounds:
  assumes "\<forall>a \<in> set seq1. a < int K" "\<forall>b \<in> set seq2. b < int K"
  shows "\<forall>(a, b) \<in> set (paired seq1 seq2). a < K \<and> b < K"
proof -
  have "a < int K \<and> b < int K" if "(a, b) \<in> set (zip seq1 seq2)" for a b
    using that assms by (auto dest: set_zip_leftD set_zip_rightD)
  then show ?thesis by (fastforce simp: paired_def)
qed

text \<open>
  C9. For two index sequences of equal length whose entries are either negative (the
  sentinel) or valid states below \<open>K\<close>, filling a zeroed \<open>K \<times> K\<close> matrix succeeds, and
  the sum of all entries of the matrix is the number of aligned positions at which both
  indices are non-negative.
\<close>

theorem diversity_matrix_sum:
  assumes "length seq1 = length seq2"
    and "\<forall>a \<in> set seq1. a < int K" and "\<forall>b \<in> set seq2. b < int K"
  shows "\<exists>m. fill_diversity_matrix (zeros K K) seq1 seq2 = Inr m \<and> is_shape K K m \<and>
           msum m = real (length (filter (\<lambda>(a, b). 0 \<le> a \<and> 0 \<le> b) (zip seq1 seq2)))"
proof -
  from fill_loop_sum[OF is_shape_zeros paired_bounds[OF assms(2,3)]]
  obtain m where "fill_loop (zeros K K) (paired seq1 seq2) = Inr m" "is_shape K K m"
    "msum m = msum (zeros K K) + real (length (paired seq1 seq2))"
    by blast
  then show ?thesis
    using assms(1) by (simp add: fill_diversity_matrix_def msum_zeros length_paired)
qed

theorem diversity_matrix_sum_witness:
  "length [2, 0, 3, 1 :: int] = length [2, 0, 1, - 9 :: int] \<and>
   (\<exists>m. fill_diversity_matrix (zeros 4 4) [2, 0, 3, 1] [2, 0, 1, - 9] = Inr m \<and>
        is_shape 4 4 m \<and> msum m = 3)"
  using diversity_matrix_sum[of "[2, 0, 3, 1]" "[2, 0, 1, - 9]" 4] by simp

subsection \<open>Hamming\<close>

text \<open>
  C1 (as amended). For every square non-negative diversity matrix with a positive total,
  \<open>hamming\<close> returns the total (the matrix sum), the proportion of changes
  \<open>(total - trace) / total\<close>, which lies in \<open>[0, 1]\<close>, the distance
  \<open>total - trace\<close>, which is the number of differing positions and lies in
  \<open>[0, total]\<close>, and no variance.
\<close>

theorem hamming_counts_differences:
  assumes "is_shape K K m" and "nonneg m" and "0 < msum m"
  shows "hamming m = (PyFloat (msum m),
                      PyFloat ((msum m - sum_list (diag m)) / msum m),
                      PyFloat (msum m - sum_list (diag m)),
                      PyNone)
         \<and> 0 \<le> (msum m - sum_list (diag m)) / msum m
         \<and> (msum m - sum_list (diag m)) / msum m \<le> 1
         \<and> 0 \<le> msum m - sum_list (diag m)
         \<and> msum m - sum_list (diag m) \<le> msum m"
  using assms diffs_nonneg[OF assms(1,2)] trace_nonneg[OF assms(1,2)]
  by (simp add: hamming_def Let_def)

theorem hamming_counts_differences_witness:
  "is_shape 2 2 [[1, 1], [1, 1]] \<and> nonneg [[1, 1], [1, 1]] \<and> 0 < msum [[1, 1], [1, 1]]
   \<and> hamming [[1, 1], [1, 1]] = (PyFloat 4, PyFloat (1 / 2), PyFloat 2, PyNone)"
  using hamming_counts_differences[of 2 "[[1, 1], [1, 1]]"]
  by (simp add: is_shape_def nonneg_def msum_def diag_def ncols_def)

text \<open>
  The distance is not the proportion: for the sequences \<open>ATGC\<close> and \<open>ATCA\<close> (states
  ordered \<open>T, C, A, G\<close>) the proportion is \<open>1/2\<close> and the distance is \<open>2\<close>, outside
  \<open>[0, 1]\<close>.
\<close>

theorem hamming_dist_counterexample:
  "fill_diversity_matrix (zeros 4 4) [2, 0, 3, 1] [2, 0, 1, 2]
     = Inr [[1, 0, 0, 0], [0, 0, 1, 0], [0, 0, 1, 0], [0, 1, 0, 0]]
   \<and> 0 < msum [[1, 0, 0, 0], [0, 0, 1, 0], [0, 0, 1, 0], [0, 1, 0, 0]]
   \<and> hamming [[1, 0, 0, 0], [0, 0, 1, 0], [0, 0, 1, 0], [0, 1, 0, 0]]
       = (PyFloat 4, PyFloat (1 / 2), PyFloat 2, PyNone)
   \<and> PyFloat 2 \<noteq> PyFloat (1 / 2) \<and> \<not> (2 :: real) \<le> 1"
  by (simp add: fill_diversity_matrix_def zeros_def paired_def matrix_incr_def eval_nat_numeral
      hamming_def msum_def diag_def ncols_def)

subsection \<open>JC69\<close>

text \<open>
  C2 (as amended). For every square non-negative diversity matrix with a positive total
  and \<open>p = (total - trace) / total\<close>: when \<open>p \<ge> 0.75\<close> the result is the invalid tuple;
  when \<open>p < 0.75\<close> the result is the total, \<open>p\<close>, the distance
  \<open>- (3/4) ln (1 - (4/3) p)\<close> and the variance \<open>p (1 - p) / ((1 - (4/3) p)\<^sup>2 total)\<close>,
  where the distance is non-negative, and positive when \<open>p\<close> is positive.
\<close>

theorem jc69_formula:
  assumes "is_shape K K m" and "nonneg m" and "0 < msum m"
  defines "p \<equiv> (msum m - sum_list (diag m)) / msum m"
  shows "(p \<ge> 3 / 4 \<longrightarrow> jc69_from_matrix m = invalid)
       \<and> (p < 3 / 4 \<longrightarrow>
            jc69_from_matrix m =
              (PyFloat (msum m), PyFloat p,
               PyFloat (- (3 / 4) * ln (1 - (4 / 3) * p)),
               PyFloat (p * (1 - p) / ((1 - (4 / 3) * p)\<^sup>2 * msum m)))
            \<and> 0 \<le> - (3 / 4) * ln (1 - (4 / 3) * p)
            \<and> (0 < p \<longrightarrow> 0 < - (3 / 4) * ln (1 - (4 / 3) * p)))"
proof -
  have p0: "0 \<le> p"
    using assms(3) diffs_nonneg[OF assms(1,2)] by (simp add: p_def)
  have inv: "p \<ge> 3 / 4 \<Longrightarrow> jc69_from_matrix m = invalid"
    using assms(3) by (simp add: jc69_from_matrix_def Let_def p_def)
  have val: "jc69_from_matrix m =
              (PyFloat (msum m), PyFloat p,
               PyFloat (- (3 / 4) * ln (1 - (4 / 3) * p)),
               PyFloat (p * (1 - p) / ((1 - (4 / 3) * p)\<^sup>2 * msum m)))" if "p < 3 / 4"
    using assms(3) that by (simp add: jc69_from_matrix_def Let_def p_def power2_eq_square)
  have pos: "0 \<le> - (3 / 4) * ln (1 - (4 / 3) * p)" if "p < 3 / 4"
  proof -
    have "0 < 1 - (4 / 3) * p" "1 - (4 / 3) * p \<le> 1" using that p0 by auto
    then have "ln (1 - (4 / 3) * p) \<le> 0" by simp
    then show ?thesis by simp
  qed
  have spos: "0 < - (3 / 4) * ln (1 - (4 / 3) * p)" if "p < 3 / 4" "0 < p"
  proof -
    have "0 < 1 - (4 / 3) * p" "1 - (4 / 3) * p < 1" using that by auto
    then have "ln (1 - (4 / 3) * p) < 0" by simp
    then show ?thesis by simp
  qed
  show ?thesis using inv val pos spos by blast
qed

text \<open>
  An instance: the matrix of two sequences of ten sites that differ at two of them
  (\<open>p = 1/5\<close>, a positive distance).
\<close>

theorem jc69_formula_witness:
  "is_shape 2 2 [[4, 1], [1, 4]] \<and> nonneg [[4, 1], [1, 4]] \<and> 0 < msum [[4, 1], [1, 4]]
   \<and> jc69_from_matrix [[4, 1], [1, 4]]
       = (PyFloat 10, PyFloat (1 / 5), PyFloat (- (3 / 4) * ln (11 / 15)),
          PyFloat ((1 / 5) * (4 / 5) / ((11 / 15)\<^sup>2 * 10)))
   \<and> 0 < - (3 / 4) * ln (11 / 15 :: real)"
  using jc69_formula[of 2 "[[4, 1], [1, 4]]"]
  by (simp add: is_shape_def nonneg_def msum_def diag_def ncols_def)

text \<open>
  At \<open>p = 0\<close> (a matrix with no off-diagonal count) the distance is \<open>0\<close>, which is not
  positive.
\<close>

theorem jc69_positive_counterexample:
  "0 < msum [[1, 0, 0, 0], [0, 1, 0, 0], [0, 0, 1, 0], [0, 0, 0, 1]]
   \<and> jc69_from_matrix [[1, 0, 0, 0], [0, 1, 0, 0], [0, 0, 1, 0], [0, 0, 0, 1]]
       = (PyFloat 4, PyFloat 0, PyFloat 0, PyFloat 0)
   \<and> \<not> (0 :: real) < 0"
  by (simp add: jc69_from_matrix_def msum_def diag_def ncols_def)

subsection \<open>No valid sites\<close>

lemma length_col_sums: "is_shape K K m \<Longrightarrow> length (col_sums m) = length (row_sums m)"
  by (cases m) (auto simp: col_sums_def row_sums_def is_shape_def ncols_def)

text \<open>
  C6. For every square diversity matrix whose total is zero, each of the five estimators
  returns the invalid tuple, the same tuple of \<open>None\<close>s that the estimators return on a
  numerical failure; none of them raises.
\<close>

theorem estimators_invalid_on_zero_total:
  assumes "is_shape K K m" and "msum m = 0"
  shows "hamming m = invalid
       \<and> jc69_from_matrix m = invalid
       \<and> tn93_from_matrix m freqs0 pur_indices pyr_indices pur_coords pyr_coords tv_coords
           = Inr invalid
       \<and> logdet np_det np_inv m use_tk_adjustment = Inr invalid
       \<and> paralinear np_det np_inv m = Inr invalid"
proof -
  have "hamming m = invalid" using assms(2) by (simp add: hamming_def)
  moreover have "jc69_from_matrix m = invalid" using assms(2) by (simp add: jc69_from_matrix_def)
  moreover have "tn93_from_matrix m freqs0 pur_indices pyr_indices pur_coords pyr_coords tv_coords
           = Inr invalid"
    using assms(2) length_col_sums[OF assms(1)] by (simp add: tn93_from_matrix_def np_add_def)
  moreover have c: "logdetcommon np_det np_inv m = Inr invalid5"
    using assms(2) by (simp add: logdetcommon_def)
  moreover have "logdet np_det np_inv m use_tk_adjustment = Inr invalid"
    by (simp add: logdet_def c invalid5_def)
  moreover have "paralinear np_det np_inv m = Inr invalid"
    by (simp add: paralinear_def c invalid5_def)
  ultimately show ?thesis by simp
qed

theorem estimators_invalid_on_zero_total_witness:
  "is_shape 4 4 (zeros 4 4) \<and> msum (zeros 4 4) = 0
   \<and> hamming (zeros 4 4) = invalid
   \<and> jc69_from_matrix (zeros 4 4) = invalid
   \<and> tn93_from_matrix (zeros 4 4) [0, 0, 0, 0] [2, 3] [1, 0] [11, 14] [4, 1] [2, 3, 6, 7, 8, 9, 12, 13]
       = Inr invalid
   \<and> logdet (\<lambda>f. Inl LinAlgError) (\<lambda>f. Inl LinAlgError) (zeros 4 4) True = Inr invalid
   \<and> paralinear (\<lambda>f. Inl LinAlgError) (\<lambda>f. Inl LinAlgError) (zeros 4 4) = Inr invalid"
proof -
  have s: "is_shape 4 4 (zeros 4 4)" by (rule is_shape_zeros)
  have z: "msum (zeros 4 4) = 0" by (rule msum_zeros)
  from estimators_invalid_on_zero_total[OF s z] s z show ?thesis by simp
qed

subsection \<open>The base computation of LogDet and Paralinear\<close>

lemma is_shape_replace: "is_shape r c m \<Longrightarrow> is_shape r c (replace_zero_diag m)"
  by (auto simp: is_shape_def replace_zero_diag_def list_all_iff in_set_enumerate_eq)

lemma replace_nth:
  assumes "is_shape r c m" "i < r" "j < c"
  shows "replace_zero_diag m ! i ! j = (if m ! i ! j = 0 \<and> i = j then 1 / 2 else m ! i ! j)"
  using assms
  by (auto simp: replace_zero_diag_def is_shape_def list_all_length nth_enumerate_eq)

lemma is_shape_normalise: "is_shape r c f \<Longrightarrow> is_shape r c (normalise f)"
  by (auto simp: is_shape_def normalise_def list_all_iff)

lemma normalise_nth:
  assumes "is_shape r c f" "i < r" "j < c"
  shows "normalise f ! i ! j = f ! i ! j / msum f"
  using assms by (simp add: normalise_def is_shape_def list_all_length)

lemma sum_list_div: "sum_list (map (\<lambda>x. x / c) xs) = sum_list xs / (c :: real)"
  by (induction xs) (auto simp: add_divide_distrib)

lemma msum_div: "msum (map (map (\<lambda>x. x / c)) f) = msum f / c"
  unfolding msum_def by (induction f) (auto simp: sum_list_div add_divide_distrib)

lemma msum_normalise: "msum f \<noteq> 0 \<Longrightarrow> msum (normalise f) = 1"
  by (simp add: normalise_def msum_div)

lemma msum_replace_ge:
  assumes "is_shape K K m"
  shows "msum m \<le> msum (replace_zero_diag m)"
  unfolding msum_sum[OF assms] msum_sum[OF is_shape_replace[OF assms]]
  by (intro sum_mono) (auto simp: replace_nth[OF assms])

text \<open>
  C5. For every square non-negative diversity matrix, the shared base computation returns
  the invalid tuple exactly when the total is zero, or every off-diagonal entry is zero,
  or the determinant of the normalised frequency matrix is not positive. The frequency
  matrix of a valid result is the copy in which every zero diagonal entry is replaced by
  \<open>0.5\<close>, divided by the sum of that copy; its entries sum to one.
\<close>

theorem logdetcommon_invalid_iff:
  assumes "is_shape K K m" and "nonneg m"
  shows "(logdetcommon np_det np_inv m = Inr invalid5
            \<longleftrightarrow> msum m = 0
                \<or> (\<forall>i<K. \<forall>j<K. i \<noteq> j \<longrightarrow> m ! i ! j = 0)
                \<or> (\<exists>d. np_det (frequency_of m) = Inr d \<and> d \<le> 0))
       \<and> (\<forall>r. logdetcommon np_det np_inv m = Inr r \<and> r \<noteq> invalid5
              \<longrightarrow> fst (snd (snd r)) = Some (frequency_of m))
       \<and> (\<forall>i<K. \<forall>j<K. frequency_of m ! i ! j
              = (if m ! i ! j = 0 \<and> i = j then 1 / 2 else m ! i ! j)
                / msum (replace_zero_diag m))
       \<and> (msum m \<noteq> 0 \<longrightarrow> msum (frequency_of m) = 1)"
proof -
  let ?off = "\<forall>i<K. \<forall>j<K. i \<noteq> j \<longrightarrow> m ! i ! j = 0"
  have dz: "msum m - sum_list (diag m) = 0 \<longleftrightarrow> ?off"
    by (rule diffs_zero_iff[OF assms])
  have iff: "logdetcommon np_det np_inv m = Inr invalid5
            \<longleftrightarrow> msum m = 0 \<or> ?off \<or> (\<exists>d. np_det (frequency_of m) = Inr d \<and> d \<le> 0)"
    using dz
    by (auto simp: logdetcommon_def Let_def invalid5_def split: sum.splits)
  have third: "fst (snd (snd r)) = Some (frequency_of m)"
    if "logdetcommon np_det np_inv m = Inr r" "r \<noteq> invalid5" for r
    using that
    by (auto simp: logdetcommon_def Let_def invalid5_def split: sum.splits if_splits)
  have sh: "is_shape K K (replace_zero_diag m)" by (rule is_shape_replace[OF assms(1)])
  have entries: "frequency_of m ! i ! j
              = (if m ! i ! j = 0 \<and> i = j then 1 / 2 else m ! i ! j)
                / msum (replace_zero_diag m)" if "i < K" "j < K" for i j
    using that by (simp add: frequency_of_def normalise_nth[OF sh] replace_nth[OF assms(1)])
  have total0: "0 \<le> msum m"
    unfolding msum_sum[OF assms(1)] by (intro sum_nonneg) (auto intro: nonneg_nth[OF assms])
  have prob: "msum (frequency_of m) = 1" if "msum m \<noteq> 0"
  proof -
    have "0 < msum (replace_zero_diag m)"
      using that total0 msum_replace_ge[OF assms(1)] by linarith
    then show ?thesis by (simp add: frequency_of_def msum_normalise)
  qed
  show ?thesis using iff third entries prob by blast
qed

theorem logdetcommon_invalid_iff_witness:
  "is_shape 2 2 [[3, 0], [0, 1]] \<and> nonneg [[3, 0], [0, 1]]
   \<and> logdetcommon (\<lambda>f. Inr (f ! 0 ! 0 * f ! 1 ! 1 - f ! 0 ! 1 * f ! 1 ! 0))
        (\<lambda>f. Inr [[f ! 1 ! 1 / (f ! 0 ! 0 * f ! 1 ! 1 - f ! 0 ! 1 * f ! 1 ! 0),
                    - f ! 0 ! 1 / (f ! 0 ! 0 * f ! 1 ! 1 - f ! 0 ! 1 * f ! 1 ! 0)],
                   [- f ! 1 ! 0 / (f ! 0 ! 0 * f ! 1 ! 1 - f ! 0 ! 1 * f ! 1 ! 0),
                    f ! 0 ! 0 / (f ! 0 ! 0 * f ! 1 ! 1 - f ! 0 ! 1 * f ! 1 ! 0)]])
        [[3, 1], [1, 0]]
       = Inr (PyFloat 5, PyFloat (2 / 5), Some [[6 / 11, 2 / 11], [2 / 11, 1 / 11]],
              Some [[8 / 11, 3 / 11], [8 / 11, 3 / 11]], PyFloat (319 / 2))
   \<and> logdetcommon (\<lambda>f. Inr (f ! 0 ! 0 * f ! 1 ! 1 - f ! 0 ! 1 * f ! 1 ! 0))
        (\<lambda>f. Inl LinAlgError) [[3, 0], [0, 1]] = Inr invalid5"
proof -
  have f: "frequency_of [[3, 1], [1, 0]] = [[6 / 11, 2 / 11], [2 / 11, 1 / 11]]"
    by (simp add: frequency_of_def normalise_def replace_zero_diag_def msum_def)
  have s: "is_shape 2 2 [[3, 1], [1, 0]]" "nonneg [[3, 1], [1, 0]]"
    "is_shape 2 2 [[3, 0], [0, 1]]" "nonneg [[3, 0], [0, 1]]"
    by (simp_all add: is_shape_def nonneg_def)
  have q: "(\<forall>i<2::nat. P i) \<longleftrightarrow> P 0 \<and> P 1" for P
    by (auto simp: less_2_cases_iff)
  have v: "logdetcommon (\<lambda>f. Inr (f ! 0 ! 0 * f ! 1 ! 1 - f ! 0 ! 1 * f ! 1 ! 0))
        (\<lambda>f. Inr [[f ! 1 ! 1 / (f ! 0 ! 0 * f ! 1 ! 1 - f ! 0 ! 1 * f ! 1 ! 0),
                    - f ! 0 ! 1 / (f ! 0 ! 0 * f ! 1 ! 1 - f ! 0 ! 1 * f ! 1 ! 0)],
                   [- f ! 1 ! 0 / (f ! 0 ! 0 * f ! 1 ! 1 - f ! 0 ! 1 * f ! 1 ! 0),
                    f ! 0 ! 0 / (f ! 0 ! 0 * f ! 1 ! 1 - f ! 0 ! 1 * f ! 1 ! 0)]])
        [[3, 1], [1, 0]]
       = Inr (PyFloat 5, PyFloat (2 / 5), Some [[6 / 11, 2 / 11], [2 / 11, 1 / 11]],
              Some [[8 / 11, 3 / 11], [8 / 11, 3 / 11]], PyFloat (319 / 2))"
    by (simp add: logdetcommon_def f msum_def diag_def ncols_def col_sums_def row_sums_def
        dot_trace_def power2_eq_square eval_nat_numeral)
  show ?thesis
    using logdetcommon_invalid_iff[OF s(3,4), of "\<lambda>f. Inr (f ! 0 ! 0 * f ! 1 ! 1 - f ! 0 ! 1 * f ! 1 ! 0)" "\<lambda>f. Inl LinAlgError"]
      s v
    by (simp add: q msum_def)
qed

subsection \<open>Progress reports\<close>

text \<open>
  C8. A run over three pairwise different sequences makes three comparisons, and
  \<open>N (N - 1) / 2 = 3\<close>; the progress values shown are \<open>0\<close>, \<open>1/4\<close> and \<open>2/4\<close>, because
  \<open>to_do\<close> is \<open>(N * N - 1) / 2 = 4\<close>.
\<close>

theorem run_progress_denominator:
  "map_sum id snd
     (run \<lparr>p_dim = 4, char_to_indices = (replicate 90 (- 9))[84 := 0, 67 := 1, 65 := 2, 71 := 3],
            names = None, indexed_seqs = None, p_dists = None, p_dupes = None, p_duped = None,
            func = (\<lambda>m. Inr (hamming m))\<rparr>
          (Some \<lparr>aln_names = [''a'', ''b'', ''c''],
                  get_gapped_seq = (\<lambda>n. if n = ''a'' then ''ATGC'' else if n = ''b'' then ''ATGT''
                                         else ''ATCA''),
                  moltype_is_instance = True\<rparr>))
   = Inr [(''a vs b'', 0), (''a vs c'', 1 / 4), (''b vs c'', 2 / 4)]
   \<and> (1 / 4 :: real) \<noteq> 1 / (3 * (3 - 1) / 2)"
  by code_simp

subsection \<open>The standard-error view\<close>

lemma map_err_sqrt_None:
  assumes "\<exists>kv \<in> set ds. variance (snd kv) = PyNone"
  shows "map_err (\<lambda>(k, v). case np_sqrt (variance v) of Inl e \<Rightarrow> Inl e | Inr r \<Rightarrow> Inr (k, r)) ds
         = Inl TypeError"
  using assms
proof (induction ds)
  case Nil
  then show ?case by simp
next
  case (Cons kv ds)
  obtain k v where kv: "kv = (k, v)" by (cases kv)
  show ?case
  proof (cases "variance v")
    case PyNone
    then show ?thesis by (simp add: kv np_sqrt_def)
  next
    case (PyFloat x)
    then have "\<exists>kv \<in> set ds. variance (snd kv) = PyNone" using Cons.prems kv by auto
    from Cons.IH[OF this] PyFloat show ?thesis by (simp add: kv np_sqrt_def)
  next
    case PyNaN
    then have "\<exists>kv \<in> set ds. variance (snd kv) = PyNone" using Cons.prems kv by auto
    from Cons.IH[OF this] PyNaN show ?thesis by (simp add: kv np_sqrt_def)
  qed
qed

lemma stderr_TypeError:
  assumes "p_dists self = Some ds" "\<exists>kv \<in> set ds. variance (snd kv) = PyNone"
  shows "stderr self = Inl TypeError"
  using assms(1) map_err_sqrt_None[OF assms(2)] by (simp add: stderr_def)

text \<open>
  C7. The hamming estimator leaves the variance \<open>None\<close>. After a run over the two
  sequences \<open>ATGC\<close> and \<open>ATGA\<close> the variance view shows \<open>None\<close> for the pair, and the
  standard-error view raises \<open>TypeError\<close>, because \<open>sqrt\<close> is applied to \<open>None\<close>.
\<close>

theorem stderr_raises_on_missing_variance:
  "(case run \<lparr>p_dim = 4, char_to_indices = (replicate 90 (- 9))[84 := 0, 67 := 1, 65 := 2, 71 := 3],
              names = None, indexed_seqs = None, p_dists = None, p_dupes = None, p_duped = None,
              func = (\<lambda>m. Inr (hamming m))\<rparr>
            (Some \<lparr>aln_names = [''a'', ''b''],
                    get_gapped_seq = (\<lambda>n. if n = ''a'' then ''ATGC'' else ''ATGA''),
                    moltype_is_instance = True\<rparr>) of
      Inl e \<Rightarrow> False
    | Inr (self, shown) \<Rightarrow>
        map_option (map (\<lambda>(k, v). (k, variance v))) (p_dists self)
          = Some [((''a'', ''b''), PyNone), ((''b'', ''a''), PyNone)]
        \<and> variances self = Inr (Some [(''a'', [PyFloat 0, PyNone]), (''b'', [PyNone, PyFloat 0])])
        \<and> stderr self = Inl TypeError)"
proof -
  let ?r = "run \<lparr>p_dim = 4, char_to_indices = (replicate 90 (- 9))[84 := 0, 67 := 1, 65 := 2, 71 := 3],
              names = None, indexed_seqs = None, p_dists = None, p_dupes = None, p_duped = None,
              func = (\<lambda>m. Inr (hamming m))\<rparr>
            (Some \<lparr>aln_names = [''a'', ''b''],
                    get_gapped_seq = (\<lambda>n. if n = ''a'' then ''ATGC'' else ''ATGA''),
                    moltype_is_instance = True\<rparr>)"
  have ev: "(case ?r of
      Inl e \<Rightarrow> False
    | Inr (self, shown) \<Rightarrow>
        map_option (map (\<lambda>(k, v). (k, variance v))) (p_dists self)
          = Some [((''a'', ''b''), PyNone), ((''b'', ''a''), PyNone)]
        \<and> variances self = Inr (Some [(''a'', [PyFloat 0, PyNone]), (''b'', [PyNone, PyFloat 0])]))"
    by code_simp
  then obtain self shown where r: "?r = Inr (self, shown)"
    by (cases ?r) auto
  from ev r have v: "map_option (map (\<lambda>(k, v). (k, variance v))) (p_dists self)
          = Some [((''a'', ''b''), PyNone), ((''b'', ''a''), PyNone)]"
    and t: "variances self = Inr (Some [(''a'', [PyFloat 0, PyNone]), (''b'', [PyNone, PyFloat 0])])"
    by simp_all
  from v obtain ds where ds: "p_dists self = Some ds"
    "map (\<lambda>(k, v). (k, variance v)) ds = [((''a'', ''b''), PyNone), ((''b'', ''a''), PyNone)]"
    by (cases "p_dists self") auto
  from ds(2) have "\<exists>kv \<in> set ds. variance (snd kv) = PyNone"
    by (cases ds) auto
  from stderr_TypeError[OF ds(1) this] v t r show ?thesis by simp
qed

subsection \<open>\<open>get_calculator\<close>\<close>

text \<open>
  C10. \<open>get_calculator\<close> converts the name to lower case first: a name whose lower-case
  form is one of the five identifiers yields the call of the corresponding class, and
  every other name raises \<open>ValueError\<close>; there is no other outcome.
\<close>

theorem get_calculator_lower:
  "get_calculator call_class name args =
     (if str_lower name = ''paralinear'' then call_class ParalinearPair args
      else if str_lower name = ''logdet'' then call_class LogDetPair args
      else if str_lower name = ''jc69'' then call_class JC69Pair args
      else if str_lower name = ''tn93'' then call_class TN93Pair args
      else if str_lower name = ''hamming'' then call_class HammingPair args
      else Inl ValueError)"
  by (simp add: get_calculator_def calculators_def)

theorem get_calculator_lower_witness:
  "get_calculator (\<lambda>c a. Inr (c, a)) ''JC69'' () = Inr (JC69Pair, ())
   \<and> get_calculator (\<lambda>c a. Inr (c, a)) ''LogDet'' () = Inr (LogDetPair, ())
   \<and> get_calculator (\<lambda>c a. Inr (c, a)) ''hamming'' () = Inr (HammingPair, ())
   \<and> get_calculator (\<lambda>c a. Inr (c, a)) ''TN93'' () = Inr (TN93Pair, ())
   \<and> get_calculator (\<lambda>c a. Inr (c, a)) ''ParaLinear'' () = Inr (ParalinearPair, ())
   \<and> get_calculator (\<lambda>c a. Inr (c, a)) ''k2p'' () = Inl ValueError"
proof -
  have l: "str_lower ''JC69'' = ''jc69''" "str_lower ''LogDet'' = ''logdet''"
    "str_lower ''hamming'' = ''hamming''" "str_lower ''TN93'' = ''tn93''"
    "str_lower ''ParaLinear'' = ''paralinear''" "str_lower ''k2p'' = ''k2p''"
    by code_simp+
  show ?thesis unfolding get_calculator_lower l by simp
qed

subsection \<open>Loops that may raise\<close>

lemma fold_err_append:
  "fold_err f (xs @ ys) s = (case fold_err f xs s of Inl e \<Rightarrow> Inl e | Inr s' \<Rightarrow> fold_err f ys s')"
  by (induction xs arbitrary: s) (auto split: sum.splits)

lemma fold_err_invariant:
  assumes "fold_err f xs s = Inr s'" and "P s"
    and "\<And>x s s'. x \<in> set xs \<Longrightarrow> P s \<Longrightarrow> f x s = Inr s' \<Longrightarrow> P s'"
  shows "P s'"
  using assms
proof (induction xs arbitrary: s)
  case Nil
  then show ?case by simp
next
  case (Cons x xs)
  from Cons.prems(1) obtain s1 where s1: "f x s = Inr s1" "fold_err f xs s1 = Inr s'"
    by (auto split: sum.splits)
  have "P s1" using Cons.prems(2,3) s1(1) by auto
  then show ?case using Cons.IH[OF s1(2)] Cons.prems(3) by auto
qed

lemma fold_err_upt_invariant:
  assumes "fold_err f [a..<b] s = Inr s'" and "a \<le> b" and "P a s"
    and "\<And>i s s'. a \<le> i \<Longrightarrow> i < b \<Longrightarrow> P i s \<Longrightarrow> f i s = Inr s' \<Longrightarrow> P (Suc i) s'"
  shows "P b s'"
  using assms
proof (induction b arbitrary: s')
  case 0
  then show ?case by simp
next
  case (Suc b)
  show ?case
  proof (cases "a = Suc b")
    case True
    then show ?thesis using Suc.prems by simp
  next
    case False
    then have ab: "a \<le> b" using Suc.prems(2) by simp
    then have "[a..<Suc b] = [a..<b] @ [b]" by simp
    with Suc.prems(1) obtain s1 where s1: "fold_err f [a..<b] s = Inr s1" "f b s1 = Inr s'"
      by (auto simp: fold_err_append split: sum.splits)
    have "P b s1"
      using Suc.IH[OF s1(1) ab Suc.prems(3)] Suc.prems(4) by simp
    then show ?thesis using Suc.prems(4)[of b s1 s'] ab s1(2) by simp
  qed
qed

subsection \<open>Symmetry of the store and of the expanded dictionaries\<close>

lemma symmetric_pairsD: "symmetric_pairs d \<Longrightarrow> map_of d (x, y) = map_of d (y, x)"
  by (simp add: symmetric_pairs_def)

lemma symmetric_pairsI: "(\<And>x y. map_of d (x, y) = map_of d (y, x)) \<Longrightarrow> symmetric_pairs d"
  by (simp add: symmetric_pairs_def)

lemma fun_upd2_apply:
  "(m(k \<mapsto> v, k' \<mapsto> v)) j = (if j = k' \<or> j = k then Some v else m j)"
  by simp

lemma map_of_update2:
  "map_of (AList.update (y, x) v (AList.update (x, y) v d)) (a, b)
     = (if (a = x \<and> b = y) \<or> (a = y \<and> b = x) then Some v else map_of d (a, b))"
proof -
  have c: "(a = y \<and> b = x \<or> a = x \<and> b = y) = (a = x \<and> b = y \<or> a = y \<and> b = x)"
    by blast
  show ?thesis by (simp only: update_conv' fun_upd2_apply prod.inject c)
qed

lemma symmetric_update2:
  assumes "symmetric_pairs d"
  shows "symmetric_pairs (AList.update (y, x) v (AList.update (x, y) v d))"
proof (rule symmetric_pairsI)
  fix a b
  have c: "(b = x \<and> a = y \<or> b = y \<and> a = x) = (a = x \<and> b = y \<or> a = y \<and> b = x)"
    by blast
  show "map_of (AList.update (y, x) v (AList.update (x, y) v d)) (a, b)
        = map_of (AList.update (y, x) v (AList.update (x, y) v d)) (b, a)"
    unfolding map_of_update2 c symmetric_pairsD[OF assms, of a b] ..
qed

lemma map_of_filter_keys:
  "map_of (filter (\<lambda>(k, v). P k) d) k = (if P k then map_of d k else None)"
  by (induction d) auto

lemma symmetric_filter:
  assumes "symmetric_pairs d"
  shows "symmetric_pairs (filter (\<lambda>((x, y), v). x \<notin> R \<and> y \<notin> R) d)"
proof -
  have eq: "(\<lambda>((x, y), v). x \<notin> R \<and> y \<notin> R) = (\<lambda>(k, v :: 'a). fst k \<notin> R \<and> snd k \<notin> R)"
    by (auto simp: fun_eq_iff)
  show ?thesis
  proof (rule symmetric_pairsI)
    fix a b
    show "map_of (filter (\<lambda>((x, y), v). x \<notin> R \<and> y \<notin> R) d) (a, b)
          = map_of (filter (\<lambda>((x, y), v). x \<notin> R \<and> y \<notin> R) d) (b, a)"
      unfolding eq using symmetric_pairsD[OF assms, of a b] by (auto simp: map_of_filter_keys)
  qed
qed

lemma symmetric_map:
  assumes "symmetric_pairs d"
  shows "symmetric_pairs (map (\<lambda>(k, v). (k, f v)) d)"
proof (rule symmetric_pairsI)
  fix a b
  have "map_of (map (\<lambda>(k, v). (k, f v)) d) k = map_option f (map_of d k)" for k
    by (induction d) auto
  then show "map_of (map (\<lambda>(k, v). (k, f v)) d) (a, b) = map_of (map (\<lambda>(k, v). (k, f v)) d) (b, a)"
    using symmetric_pairsD[OF assms, of a b] by simp
qed

lemma pair_step_sym:
  assumes "pair_step self ns to_do i s1 j st = Inr st'" "sym_opt (dists st)"
  shows "sym_opt (dists st')"
  using assms
  by (auto simp: pair_step_def Let_def sym_opt_def symmetric_update2
      split: if_splits option.splits sum.splits prod.splits)

lemma row_step_sym:
  assumes "row_step self ns to_do i st = Inr st'" "sym_opt (dists st)"
  shows "sym_opt (dists st')"
proof (cases "i \<in> set (dupes st)")
  case True
  then show ?thesis using assms by (simp add: row_step_def)
next
  case False
  then obtain s1 where "fold_err (pair_step self ns to_do i s1) [i + 1..<length ns] st = Inr st'"
    using assms(1) by (auto simp: row_step_def split: option.splits sum.splits)
  then show ?thesis
    by (rule fold_err_invariant[where P = "\<lambda>st. sym_opt (dists st)"])
       (auto intro: assms(2) pair_step_sym)
qed

lemma outer_sym:
  assumes "fold_err (row_step self ns to_do) is st = Inr st'" "sym_opt (dists st)"
  shows "sym_opt (dists st')"
  using assms(1)
  by (rule fold_err_invariant[where P = "\<lambda>st. sym_opt (dists st)"])
     (auto intro: assms(2) row_step_sym)

lemma finish_run_sym:
  assumes "finish_run self ns st = Inr self'" "sym_opt (dists st)"
  shows "sym_opt (p_dists self')"
proof (cases "duped st = []")
  case True
  then have "p_dists self' = dists st"
    using assms(1) by (auto simp: finish_run_def Let_def)
  then show ?thesis using assms(2) by simp
next
  case False
  then obtain ds where ds: "dists st = Some ds"
    and p: "p_dists self' = Some (filter (\<lambda>((x, y), v). x \<notin> set (map (\<lambda>i. ns ! i) (dupes st))
                                          \<and> y \<notin> set (map (\<lambda>i. ns ! i) (dupes st))) ds)"
    using assms(1) by (auto simp: finish_run_def Let_def split: option.splits)
  have "symmetric_pairs ds" using assms(2) ds by (simp add: sym_opt_def)
  then show ?thesis
    unfolding p sym_opt_def by (auto intro: symmetric_filter)
qed

lemma convert_dists:
  assumes "convert_seqs_to_indices self a = Inr self'"
  shows "p_dists self' = Some []"
  using assms by (auto simp: convert_seqs_to_indices_def split: if_splits sum.splits)

lemma run_sym:
  assumes "run self alignment = Inr (self', shown)"
    and "alignment = None \<longrightarrow> sym_opt (p_dists self)"
  shows "sym_opt (p_dists self')"
proof -
  let ?self0 = "self\<lparr>p_dupes := None, p_duped := None\<rparr>"
  from assms(1) obtain self1 ns st where
    c: "(case alignment of None \<Rightarrow> Inr ?self0 | Some a \<Rightarrow> convert_seqs_to_indices ?self0 a) = Inr self1"
    and n: "names self1 = Some ns"
    and l: "fold_err (row_step self1 ns ((real (length ns) * real (length ns) - 1) / 2))
              [0..<length ns - 1]
              \<lparr>dupes = [], duped = [], dists = p_dists self1, done_count = 0, displayed = []\<rparr> = Inr st"
    and f: "finish_run self1 ns st = Inr self'"
    by (auto simp: run_def Let_def split: sum.splits option.splits)
  have "sym_opt (p_dists self1)"
  proof (cases alignment)
    case None
    then show ?thesis using c assms(2) by (auto simp: sym_opt_def)
  next
    case (Some a)
    then have "p_dists self1 = Some []" using c convert_dists by auto
    then show ?thesis by (simp add: sym_opt_def symmetric_pairs_def)
  qed
  then have "sym_opt (dists st)" using outer_sym[OF l] by simp
  then show ?thesis by (rule finish_run_sym[OF f])
qed

lemma expand_name_sym:
  assumes "symmetric_pairs pw"
  shows "symmetric_pairs (expand_name add alias name pw)"
  using assms by (simp add: expand_name_def Let_def symmetric_update2)

lemma fold_expand_name_sym:
  assumes "symmetric_pairs pw"
  shows "symmetric_pairs (fold (expand_name add alias) ns pw)"
  using assms by (induction ns arbitrary: pw) (auto intro: expand_name_sym)

lemma expand_sym:
  assumes "expand self pw = Inr pw'" "symmetric_pairs pw"
  shows "symmetric_pairs pw'"
proof -
  have "symmetric_pairs (fold (\<lambda>(add, alias) pwise. fold (expand_name add alias) ns pwise) red pw)"
    for red ns
    using assms(2) by (induction red arbitrary: pw) (auto intro: fold_expand_name_sym)
  then show ?thesis
    using assms by (auto simp: expand_def Let_def split: option.splits if_splits)
qed

lemma table_cell_sym:
  assumes c: "table_cell stats ns i j rows = Inr rows'" and ij: "i < n" "j < n"
    and inv: "square_sym n rows"
  shows "square_sym n rows'"
proof -
  from c obtain val where
    r': "rows' = (rows[i := (rows ! i)[j := val]])[j := ((rows[i := (rows ! i)[j := val]]) ! j)[i := val]]"
    by (auto simp: table_cell_def Let_def split: option.splits)
  have len: "length rows = n" and rl: "\<And>r. r < n \<Longrightarrow> length (rows ! r) = n"
    and sy: "\<And>a b. a < n \<Longrightarrow> b < n \<Longrightarrow> rows ! a ! b = rows ! b ! a"
    using inv by (auto simp: square_sym_def)
  have entry: "rows' ! a ! b = (if (a = i \<and> b = j) \<or> (a = j \<and> b = i) then val else rows ! a ! b)"
    if "a < n" "b < n" for a b
    using that ij len rl by (auto simp: r' nth_list_update)
  have "length rows' = n" using len by (simp add: r')
  moreover have "length (rows' ! r) = n" if "r < n" for r
    using that ij len rl by (auto simp: r' nth_list_update)
  moreover have "rows' ! a ! b = rows' ! b ! a" if "a < n" "b < n" for a b
    using entry[OF that] entry[OF that(2,1)] sy[OF that] by auto
  ultimately show ?thesis by (simp add: square_sym_def)
qed

lemma make_stat_table_sym:
  assumes "make_stat_table stats ns = Inr t"
  shows "symmetric_table t"
proof -
  let ?n = "length ns"
  from assms obtain rows where
    f: "fold_err (\<lambda>i rows. fold_err (table_cell stats ns i) [i + 1..<?n] rows) [0..<?n - 1]
          (replicate ?n (replicate ?n (PyFloat 0))) = Inr rows"
    and t: "t = zip ns rows"
    by (auto simp: make_stat_table_def Let_def split: sum.splits)
  have start: "square_sym ?n (replicate ?n (replicate ?n (PyFloat 0)))"
    by (simp add: square_sym_def)
  have row: "square_sym ?n r'"
    if "i \<in> set [0..<?n - 1]" "square_sym ?n r"
      "fold_err (table_cell stats ns i) [i + 1..<?n] r = Inr r'" for i r r'
  proof (rule fold_err_invariant[OF that(3), where P = "square_sym ?n"])
    show "square_sym ?n r" by (rule that(2))
  next
    fix j s s'
    assume "j \<in> set [i + 1..<?n]" "square_sym ?n s" "table_cell stats ns i j s = Inr s'"
    then show "square_sym ?n s'"
      using that(1) table_cell_sym[of stats ns i j s s' ?n] by auto
  qed
  have sq: "square_sym ?n rows"
    by (rule fold_err_invariant[OF f, where P = "square_sym ?n"]) (auto intro: start row)
  then have "length rows = ?n" by (simp add: square_sym_def)
  then show ?thesis
    using sq by (simp add: symmetric_table_def t square_sym_def)
qed

lemma stat_table_sym:
  assumes "stat_table self stats = Inr (Some t)"
  shows "symmetric_table t"
  using assms
  by (auto simp: stat_table_def split: sum.splits option.splits intro: make_stat_table_sym)

lemma views_sym:
  assumes "dists_table self = Inr (Some t) \<or> stderr self = Inr (Some t)
         \<or> variances self = Inr (Some t) \<or> proportions self = Inr (Some t)
         \<or> lengths self = Inr (Some t)"
  shows "symmetric_table t"
  using assms
  by (auto simp: dists_table_def stderr_def variances_def proportions_def lengths_def
      split: option.splits sum.splits intro: stat_table_sym)

text \<open>
  C3. After every run that returns (started with an alignment, or without one on a
  calculator whose store is symmetric, as the store left by an earlier run is), the sparse
  store is symmetric, \<open>_expand\<close> turns every symmetric dictionary of a statistic into a
  symmetric one, and so the dictionary of \<open>get_pairwise_distances\<close> is symmetric, with
  and without the duplicates; and every table that one of the five statistic views returns
  is symmetric.
\<close>

theorem distance_matrix_symmetric:
  assumes "run self alignment = Inr (self', shown)"
    and "alignment = None \<longrightarrow> (\<forall>ds. p_dists self = Some ds \<longrightarrow> symmetric_pairs ds)"
  shows "(\<forall>ds. p_dists self' = Some ds \<longrightarrow> symmetric_pairs ds)
       \<and> (\<forall>pwise pwise'. symmetric_pairs pwise \<and> expand self' pwise = Inr pwise'
              \<longrightarrow> symmetric_pairs pwise')
       \<and> (\<forall>b pwise. get_pairwise_distances self' b = Inr (Some pwise) \<longrightarrow> symmetric_pairs pwise)
       \<and> (\<forall>t. dists_table self' = Inr (Some t) \<or> stderr self' = Inr (Some t)
                \<or> variances self' = Inr (Some t) \<or> proportions self' = Inr (Some t)
                \<or> lengths self' = Inr (Some t)
              \<longrightarrow> symmetric_table t)"
proof -
  have s: "sym_opt (p_dists self')"
    using run_sym[OF assms(1)] assms(2) by (simp add: sym_opt_def)
  have g: "symmetric_pairs pwise" if "get_pairwise_distances self' b = Inr (Some pwise)" for b pwise
  proof -
    from that obtain ds where ds: "p_dists self' = Some ds"
      by (auto simp: get_pairwise_distances_def split: option.splits)
    then have m: "symmetric_pairs (map (\<lambda>(k, v). (k, stats_dist v)) ds)"
      using s by (simp add: sym_opt_def symmetric_map)
    show ?thesis
      using that ds m expand_sym
      by (auto simp: get_pairwise_distances_def Let_def split: if_splits sum.splits)
  qed
  have e: "symmetric_pairs pwise'"
    if "symmetric_pairs pwise \<and> expand self' pwise = Inr pwise'" for pwise pwise'
    using that expand_sym by blast
  have v: "symmetric_table t"
    if "dists_table self' = Inr (Some t) \<or> stderr self' = Inr (Some t)
                \<or> variances self' = Inr (Some t) \<or> proportions self' = Inr (Some t)
                \<or> lengths self' = Inr (Some t)" for t
    using that by (rule views_sym)
  have st: "\<forall>ds. p_dists self' = Some ds \<longrightarrow> symmetric_pairs ds"
    using s by (simp add: sym_opt_def)
  show ?thesis using st e g v by blast
qed

theorem distance_matrix_symmetric_witness:
  "(case run \<lparr>p_dim = 4, char_to_indices = (replicate 90 (- 9))[84 := 0, 67 := 1, 65 := 2, 71 := 3],
              names = None, indexed_seqs = None, p_dists = None, p_dupes = None, p_duped = None,
              func = (\<lambda>m. Inr (hamming m))\<rparr>
            (Some \<lparr>aln_names = [''a'', ''b'', ''c''],
                    get_gapped_seq = (\<lambda>n. if n = ''a'' \<or> n = ''b'' then ''ATGC'' else ''ATCA''),
                    moltype_is_instance = True\<rparr>) of
      Inl e \<Rightarrow> False
    | Inr (self, shown) \<Rightarrow>
        get_pairwise_distances self True
          = Inr (Some [((''a'', ''c''), PyFloat 2), ((''c'', ''a''), PyFloat 2),
                       ((''b'', ''a''), PyFloat 0), ((''a'', ''b''), PyFloat 0),
                       ((''b'', ''c''), PyFloat 2), ((''c'', ''b''), PyFloat 2)]))
   \<and> symmetric_pairs [((''a'', ''c''), PyFloat 2), ((''c'', ''a''), PyFloat 2),
                        ((''b'', ''a''), PyFloat 0), ((''a'', ''b''), PyFloat 0),
                        ((''b'', ''c''), PyFloat 2), ((''c'', ''b''), PyFloat 2)]"
proof -
  let ?r = "run \<lparr>p_dim = 4, char_to_indices = (replicate 90 (- 9))[84 := 0, 67 := 1, 65 := 2, 71 := 3],
              names = None, indexed_seqs = None, p_dists = None, p_dupes = None, p_duped = None,
              func = (\<lambda>m. Inr (hamming m))\<rparr>
            (Some \<lparr>aln_names = [''a'', ''b'', ''c''],
                    get_gapped_seq = (\<lambda>n. if n = ''a'' \<or> n = ''b'' then ''ATGC'' else ''ATCA''),
                    moltype_is_instance = True\<rparr>)"
  let ?L = "[((''a'', ''c''), PyFloat 2), ((''c'', ''a''), PyFloat 2),
             ((''b'', ''a''), PyFloat 0), ((''a'', ''b''), PyFloat 0),
             ((''b'', ''c''), PyFloat 2), ((''c'', ''b''), PyFloat 2)]"
  have ev: "case ?r of Inl e \<Rightarrow> False
            | Inr (self, shown) \<Rightarrow> get_pairwise_distances self True = Inr (Some ?L)"
    by code_simp
  then obtain self' shown where r: "?r = Inr (self', shown)"
    and g: "get_pairwise_distances self' True = Inr (Some ?L)"
    by (cases ?r) auto
  from distance_matrix_symmetric[OF r] g have "symmetric_pairs ?L" by blast
  with ev show ?thesis by blast
qed

subsection \<open>What \<open>_expand\<close> writes\<close>

lemma map_of_expand_name:
  "map_of (expand_name add alias name pw) (x, y) =
     (if name \<noteq> add \<and> ((x = add \<and> y = name) \<or> (x = name \<and> y = add))
      then Some (if name = alias then PyFloat 0 else dict_get pw (alias, name))
      else map_of pw (x, y))"
  by (simp add: expand_name_def Let_def map_of_update2)

lemma fold_expand_name_map_of:
  assumes "add \<noteq> alias"
  shows "map_of (fold (expand_name add alias) ns pw) (x, y) =
     (if x = add \<and> y \<noteq> add \<and> y \<in> set ns
      then Some (if y = alias then PyFloat 0 else dict_get pw (alias, y))
      else if y = add \<and> x \<noteq> add \<and> x \<in> set ns
      then Some (if x = alias then PyFloat 0 else dict_get pw (alias, x))
      else map_of pw (x, y))"
proof (induction ns arbitrary: x y rule: rev_induct)
  case Nil
  then show ?case by simp
next
  case (snoc n ns)
  let ?pw = "fold (expand_name add alias) ns pw"
  have rd: "dict_get ?pw (alias, n) = dict_get pw (alias, n)" if "n \<noteq> add"
    using that assms by (simp add: dict_get_def snoc.IH)
  show ?case
  proof (cases "n = add")
    case True
    then show ?thesis by (simp add: map_of_expand_name snoc.IH)
  next
    case False
    then show ?thesis
      using rd by (auto simp: map_of_expand_name snoc.IH)
  qed
qed

lemma dict_get_sym: "symmetric_pairs d \<Longrightarrow> dict_get d (x, y) = dict_get d (y, x)"
  by (simp add: dict_get_def symmetric_pairsD[of d x y])

lemma representative_notin:
  assumes "z \<notin> fst ` set red"
  shows "representative red z = z"
proof -
  have "map_of red z = None" using assms by (simp add: map_of_eq_None_iff)
  then show ?thesis by (simp add: representative_def)
qed

lemma representative_snoc_new:
  assumes "add \<notin> fst ` set red"
  shows "representative (red @ [(add, rp)]) add = rp"
proof -
  have "map_of red add = None" using assms by (simp add: map_of_eq_None_iff)
  then show ?thesis by (simp add: representative_def map_add_def)
qed

lemma representative_snoc_other:
  assumes "z \<noteq> add"
  shows "representative (red @ [(add, rp)]) z = representative red z"
  using assms by (simp add: representative_def map_add_def split: option.splits)

lemma expand_fold_map_of:
  assumes "distinct (map fst red)"
    and "\<forall>(add, alias) \<in> set red. alias \<notin> fst ` set red \<and> add \<in> set ns \<and> alias \<in> set ns"
    and "symmetric_pairs pw0"
    and "x \<in> set ns" and "y \<in> set ns" and "x \<noteq> y"
  shows "map_of (fold (\<lambda>(add, alias) pw. fold (expand_name add alias) ns pw) red pw0) (x, y) =
     (if x \<notin> fst ` set red \<and> y \<notin> fst ` set red then map_of pw0 (x, y)
      else Some (if representative red x = representative red y then PyFloat 0
                 else dict_get pw0 (representative red x, representative red y)))"
  using assms
proof (induction red arbitrary: x y rule: rev_induct)
  case Nil
  then show ?case by simp
next
  case (snoc p red)
  obtain add rp where p: "p = (add, rp)" by (cases p)
  define prev where "prev = fold (\<lambda>(add, alias) pw. fold (expand_name add alias) ns pw) red pw0"
  define final where
    "final = fold (\<lambda>(add, alias) pw. fold (expand_name add alias) ns pw) (red @ [p]) pw0"
  let ?r = "representative red"
  let ?r' = "representative (red @ [p])"
  have d: "distinct (map fst red)" and fresh: "add \<notin> fst ` set red"
    using snoc.prems(1) p by auto
  have al: "rp \<noteq> add" "rp \<notin> fst ` set red" "rp \<in> set ns" "add \<in> set ns"
    using snoc.prems(2) p by auto
  have c: "\<forall>(add, alias) \<in> set red. alias \<notin> fst ` set red \<and> add \<in> set ns \<and> alias \<in> set ns"
    using snoc.prems(2) by auto
  have IH: "map_of prev (a, b) =
     (if a \<notin> fst ` set red \<and> b \<notin> fst ` set red then map_of pw0 (a, b)
      else Some (if ?r a = ?r b then PyFloat 0 else dict_get pw0 (?r a, ?r b)))"
    if "a \<in> set ns" "b \<in> set ns" "a \<noteq> b" for a b
    unfolding prev_def using snoc.IH[OF d c snoc.prems(3) that] .
  have ra: "?r rp = rp" using al(2) by (rule representative_notin)
  have val: "(if z = rp then PyFloat 0 else dict_get prev (rp, z))
             = (if rp = ?r z then PyFloat 0 else dict_get pw0 (rp, ?r z))"
    if "z \<in> set ns" "z \<noteq> add" for z
  proof (cases "z = rp")
    case True
    then show ?thesis using ra by simp
  next
    case False
    then have m: "map_of prev (rp, z) =
       (if z \<notin> fst ` set red then map_of pw0 (rp, z)
        else Some (if rp = ?r z then PyFloat 0 else dict_get pw0 (rp, ?r z)))"
      using IH[OF al(3) that(1)] al(2) ra by simp
    show ?thesis
    proof (cases "z \<in> fst ` set red")
      case True
      then show ?thesis using False m by (simp add: dict_get_def)
    next
      case False2: False
      then have "?r z = z" by (rule representative_notin)
      then show ?thesis using False False2 m by (simp add: dict_get_def)
    qed
  qed
  have final_prev: "final = fold (expand_name add rp) ns prev"
    by (simp add: final_def prev_def p)
  have step: "map_of final (a, b)
      = (if a = add \<and> b \<noteq> add \<and> b \<in> set ns
         then Some (if b = rp then PyFloat 0 else dict_get prev (rp, b))
         else if b = add \<and> a \<noteq> add \<and> a \<in> set ns
         then Some (if a = rp then PyFloat 0 else dict_get prev (rp, a))
         else map_of prev (a, b))" for a b
    unfolding final_prev using al(1) by (simp add: fold_expand_name_map_of)
  have keys: "fst ` set (red @ [p]) = insert add (fst ` set red)"
    by (simp add: p)
  have goal: "map_of final (x, y) =
     (if x \<notin> fst ` set (red @ [p]) \<and> y \<notin> fst ` set (red @ [p]) then map_of pw0 (x, y)
      else Some (if ?r' x = ?r' y then PyFloat 0 else dict_get pw0 (?r' x, ?r' y)))"
  proof (cases "x = add")
    case True
    then have y: "y \<noteq> add" using snoc.prems(6) by simp
    have rx: "?r' x = rp"
      unfolding p True using fresh by (rule representative_snoc_new)
    have ry: "?r' y = ?r y"
      unfolding p using y by (rule representative_snoc_other)
    have "map_of final (x, y) = Some (if rp = ?r y then PyFloat 0 else dict_get pw0 (rp, ?r y))"
      using True y snoc.prems(5) val[OF snoc.prems(5) y] by (simp add: step)
    then show ?thesis unfolding keys rx ry using True by simp
  next
    case xa: False
    show ?thesis
    proof (cases "y = add")
      case True
      have ry: "?r' y = rp"
        unfolding p True using fresh by (rule representative_snoc_new)
      have rx: "?r' x = ?r x"
        unfolding p using xa by (rule representative_snoc_other)
      have sw: "dict_get pw0 (rp, ?r x) = dict_get pw0 (?r x, rp)"
        by (rule dict_get_sym[OF snoc.prems(3)])
      have "map_of final (x, y) = Some (if rp = ?r x then PyFloat 0 else dict_get pw0 (rp, ?r x))"
        using True xa snoc.prems(4) val[OF snoc.prems(4) xa] by (simp add: step)
      then show ?thesis unfolding keys rx ry sw using True by auto
    next
      case False
      have rx: "?r' x = ?r x" unfolding p using xa by (rule representative_snoc_other)
      have ry: "?r' y = ?r y" unfolding p using False by (rule representative_snoc_other)
      have "map_of final (x, y) = map_of prev (x, y)"
        using xa False by (simp add: step)
      then show ?thesis
        unfolding keys rx ry using xa False IH[OF snoc.prems(4,5,6)] by simp
    qed
  qed
  then show ?case unfolding final_def .
qed

subsection \<open>Invariants of the loops of \<open>run\<close>\<close>

lemma update_fresh: "k \<notin> fst ` set al \<Longrightarrow> AList.update k v al = al @ [(k, v)]"
  by (induction al) auto

lemma duped_append_keys: "fst ` set (duped_append d i j) = insert i (fst ` set d)"
  by (auto simp: duped_append_def dom_update split: option.splits)

lemma duped_append_distinct:
  "distinct (map fst d) \<Longrightarrow> distinct (map fst (duped_append d i j))"
  by (auto simp: duped_append_def distinct_update map_of_eq_None_iff split: option.splits)

lemma set_update_distinct:
  assumes "distinct (map fst d)" "map_of d i = Some v"
  shows "set (AList.update i w d) = insert (i, w) (set d - {(i, v)})"
  using assms
proof (induction d)
  case Nil
  then show ?case by simp
next
  case (Cons p d)
  obtain k u where p: "p = (k, u)" by (cases p)
  show ?case
  proof (cases "k = i")
    case True
    then have "u = v" using Cons.prems(2) p by simp
    moreover have "(i, v) \<notin> set d" using Cons.prems(1) p True by (auto simp: image_iff)
    ultimately show ?thesis using p True by auto
  next
    case False
    then have "map_of d i = Some v" using Cons.prems(2) p by simp
    from Cons.IH[OF _ this] Cons.prems(1) have "set (AList.update i w d) = insert (i, w) (set d - {(i, v)})"
      by simp
    then show ?thesis using p False by auto
  qed
qed

lemma duped_append_mem:
  assumes "distinct (map fst d)"
  shows "(k, vs) \<in> set (duped_append d i j) \<longleftrightarrow>
           (k \<noteq> i \<and> (k, vs) \<in> set d)
           \<or> (k = i \<and> vs = (case map_of d i of None \<Rightarrow> [] | Some v \<Rightarrow> v) @ [j])"
proof (cases "map_of d i")
  case None
  then have "i \<notin> fst ` set d" by (simp add: map_of_eq_None_iff)
  then have n: "\<And>vs. (i, vs) \<notin> set d" by (auto simp: image_iff)
  have "duped_append d i j = d @ [(i, [j])]" using None by (simp add: duped_append_def)
  then show ?thesis using None n by auto
next
  case (Some v)
  have u: "vs' = v" if "(i, vs') \<in> set d" for vs'
    using map_of_is_SomeI[OF assms that] Some by simp
  have "set (duped_append d i j) = insert (i, v @ [j]) (set d - {(i, v)})"
    using Some by (simp add: duped_append_def set_update_distinct[OF assms Some])
  then show ?thesis
    using Some u by auto
qed

lemma pair_step_cases:
  assumes "pair_step self ns to_do i s1 j st = Inr st'"
  shows "(j \<in> set (dupes st) \<and> st' = st)
       \<or> (j \<notin> set (dupes st) \<and> dupes st' = dupes st @ [j]
            \<and> duped st' = duped_append (duped st) i j \<and> dists st' = dists st)
       \<or> (j \<notin> set (dupes st) \<and> dupes st' = dupes st \<and> duped st' = duped st
            \<and> (\<exists>ds r. dists st = Some ds
                  \<and> dists st' = Some (AList.update (ns ! j, ns ! i) r
                                        (AList.update (ns ! i, ns ! j) r ds))))"
  using assms
  by (auto simp: pair_step_def Let_def split: if_splits option.splits sum.splits prod.splits)

lemma dup_inv_append:
  assumes inv: "dup_inv n st" and i: "i \<notin> set (dupes st)" "i < n" and j: "j \<notin> set (dupes st)" "j < n"
    and le: "\<forall>k \<in> fst ` set (duped st). k \<le> i" and ij: "i < j"
    and st': "dupes st' = dupes st @ [j]" "duped st' = duped_append (duped st) i j"
  shows "dup_inv n st'"
proof -
  have d: "distinct (map fst (duped st))" using inv by (simp add: dup_inv_def)
  have a: "\<And>k vs. (k, vs) \<in> set (duped st) \<Longrightarrow> k \<notin> set (dupes st) \<and> k < n \<and> set vs \<subseteq> set (dupes st)"
    using inv by (auto simp: dup_inv_def)
  have b: "\<And>k vs k' vs'. (k, vs) \<in> set (duped st) \<Longrightarrow> (k', vs') \<in> set (duped st) \<Longrightarrow> k \<noteq> k'
            \<Longrightarrow> set vs \<inter> set vs' = {}"
    using inv by (fastforce simp: dup_inv_def)
  have c: "\<And>x. x \<in> set (dupes st) \<Longrightarrow> x < n \<and> (\<exists>(k, vs) \<in> set (duped st). x \<in> set vs)"
    using inv by (auto simp: dup_inv_def)
  have kj: "\<And>k vs. (k, vs) \<in> set (duped st) \<Longrightarrow> k \<noteq> j"
    using le ij by (fastforce simp: image_iff)
  define old where "old = (case map_of (duped st) i of None \<Rightarrow> [] | Some v \<Rightarrow> v)"
  have old: "set old \<subseteq> set (dupes st)"
  proof (cases "map_of (duped st) i")
    case None
    then show ?thesis by (simp add: old_def)
  next
    case (Some v)
    then have "(i, v) \<in> set (duped st)" by (rule map_of_SomeD)
    then show ?thesis using a Some by (simp add: old_def)
  qed
  have old_in: "old \<noteq> [] \<Longrightarrow> (i, old) \<in> set (duped st)"
    by (cases "map_of (duped st) i") (auto simp: old_def dest: map_of_SomeD)
  have mem: "\<And>k vs. (k, vs) \<in> set (duped st') \<longleftrightarrow>
           (k \<noteq> i \<and> (k, vs) \<in> set (duped st)) \<or> (k = i \<and> vs = old @ [j])"
    unfolding st'(2) old_def by (rule duped_append_mem[OF d])
  have 1: "distinct (map fst (duped st'))"
    unfolding st'(2) using d by (rule duped_append_distinct)
  have 2: "k \<notin> set (dupes st') \<and> k < n \<and> set vs \<subseteq> set (dupes st')" if "(k, vs) \<in> set (duped st')" for k vs
  proof (cases "k = i")
    case True
    then have "vs = old @ [j]" using that mem by simp
    then show ?thesis using True i ij old by (auto simp: st'(1))
  next
    case False
    then have "(k, vs) \<in> set (duped st)" using that mem by simp
    then show ?thesis using a[of k vs] kj[of k vs] by (auto simp: st'(1))
  qed
  have disj: "set vs \<inter> set (old @ [j]) = {}" if "(k, vs) \<in> set (duped st)" "k \<noteq> i" for k vs
  proof -
    have "j \<notin> set vs" using a[OF that(1)] j(1) by auto
    moreover have "set vs \<inter> set old = {}"
    proof (cases "old = []")
      case True
      then show ?thesis by simp
    next
      case False
      then show ?thesis using b[OF that(1) old_in that(2)] by simp
    qed
    ultimately show ?thesis by auto
  qed
  have 3: "set vs \<inter> set vs' = {}"
    if m: "(k, vs) \<in> set (duped st')" "(k', vs') \<in> set (duped st')" and ne: "k \<noteq> k'"
    for k vs k' vs'
  proof -
    consider "k \<noteq> i" "k' \<noteq> i" | "k = i" "k' \<noteq> i" | "k \<noteq> i" "k' = i"
      using ne by blast
    then show ?thesis
    proof cases
      case 1
      then show ?thesis using m ne mem b by simp
    next
      case 2
      then have "vs = old @ [j]" "(k', vs') \<in> set (duped st)" using m mem by simp_all
      then show ?thesis using disj[of k' vs'] 2 by auto
    next
      case 3
      then have "vs' = old @ [j]" "(k, vs) \<in> set (duped st)" using m mem by simp_all
      then show ?thesis using disj[of k vs] 3 by auto
    qed
  qed
  have 4: "x < n \<and> (\<exists>(k, vs) \<in> set (duped st'). x \<in> set vs)" if "x \<in> set (dupes st')" for x
  proof (cases "x = j")
    case True
    have "(i, old @ [j]) \<in> set (duped st')" using mem by simp
    then show ?thesis using True j(2) by (auto intro!: bexI[of _ "(i, old @ [j])"])
  next
    case False
    then have x: "x \<in> set (dupes st)" using that by (simp add: st'(1))
    then obtain k vs where kv: "(k, vs) \<in> set (duped st)" "x \<in> set vs" using c by blast
    have xn: "x < n" using c[OF x] by simp
    show ?thesis
    proof (cases "k = i")
      case True
      then have "vs = old" using kv(1) d by (simp add: old_def map_of_is_SomeI[OF d kv(1)[unfolded True]])
      then have "(i, old @ [j]) \<in> set (duped st')" "x \<in> set (old @ [j])" using mem kv(2) by simp_all
      then show ?thesis using xn by (auto intro!: bexI[of _ "(i, old @ [j])"])
    next
      case False
      then have "(k, vs) \<in> set (duped st')" using kv(1) mem by simp
      then show ?thesis using xn kv(2) by (auto intro!: bexI[of _ "(k, vs)"])
    qed
  qed
  show ?thesis
    unfolding dup_inv_def using 1 2 3 4 by blast
qed

lemma stored_mono:
  assumes "pair_step self ns to_do i s1 j st = Inr st'" "stored ns st a b"
  shows "stored ns st' a b"
proof -
  from pair_step_cases[OF assms(1)]
  consider "st' = st"
    | "dupes st' = dupes st @ [j]" "dists st' = dists st"
    | ds r where "dupes st' = dupes st" "dists st = Some ds"
        "dists st' = Some (AList.update (ns ! j, ns ! i) r (AList.update (ns ! i, ns ! j) r ds))"
    by blast
  then show ?thesis
  proof cases
    case 1
    then show ?thesis using assms(2) by simp
  next
    case 2
    then show ?thesis using assms(2) by (auto simp: stored_def)
  next
    case 3
    then show ?thesis
      using assms(2) by (auto simp: stored_def map_of_update2)
  qed
qed

lemma stored_here:
  assumes "pair_step self ns to_do i s1 j st = Inr st'"
  shows "stored ns st' i j"
proof -
  from pair_step_cases[OF assms(1)]
  consider "j \<in> set (dupes st)" "st' = st"
    | "dupes st' = dupes st @ [j]"
    | ds r where
        "dists st' = Some (AList.update (ns ! j, ns ! i) r (AList.update (ns ! i, ns ! j) r ds))"
    by blast
  then show ?thesis
  proof cases
    case 1
    then show ?thesis by (simp add: stored_def)
  next
    case 2
    then show ?thesis by (simp add: stored_def)
  next
    case 3
    then show ?thesis by (simp add: stored_def map_of_update2)
  qed
qed

lemma pair_step_inv:
  assumes step: "pair_step self ns to_do i s1 j st = Inr st'"
    and ij: "i < j" "j < length ns"
    and inv: "dup_inv (length ns) st" "i \<notin> set (dupes st)"
      "\<forall>k \<in> fst ` set (duped st). k \<le> i" "pairs_done ns i j st"
  shows "dup_inv (length ns) st' \<and> i \<notin> set (dupes st')
       \<and> (\<forall>k \<in> fst ` set (duped st'). k \<le> i) \<and> pairs_done ns i (Suc j) st'"
proof -
  have pd: "pairs_done ns i (Suc j) st'"
    unfolding pairs_done_def
  proof (intro allI impI)
    fix a b
    assume ab: "a < b \<and> b < length ns \<and> (a < i \<or> a = i \<and> b < Suc j)"
    show "stored ns st' a b"
    proof (cases "a = i \<and> b = j")
      case True
      then show ?thesis using stored_here[OF step] by simp
    next
      case False
      then have "stored ns st a b" using ab inv(4) by (auto simp: pairs_done_def less_Suc_eq)
      then show ?thesis by (rule stored_mono[OF step])
    qed
  qed
  from pair_step_cases[OF step]
  consider "st' = st"
    | "j \<notin> set (dupes st)" "dupes st' = dupes st @ [j]" "duped st' = duped_append (duped st) i j"
    | "dupes st' = dupes st" "duped st' = duped st"
    by blast
  then show ?thesis
  proof cases
    case 1
    then show ?thesis using inv pd by simp
  next
    case 2
    have "dup_inv (length ns) st'"
      using dup_inv_append[OF inv(1,2) _ 2(1) ij(2) inv(3) ij(1) 2(2,3)] ij by simp
    moreover have "i \<notin> set (dupes st')" using inv(2) ij(1) 2(2) by simp
    moreover have "\<forall>k \<in> fst ` set (duped st'). k \<le> i"
      using inv(3) by (simp add: 2(3) duped_append_keys)
    ultimately show ?thesis using pd by simp
  next
    case 3
    then have "dup_inv (length ns) st'" using inv(1) by (simp add: dup_inv_def)
    then show ?thesis using inv pd 3 by simp
  qed
qed

lemma row_step_inv:
  assumes step: "row_step self ns to_do i st = Inr st'"
    and i: "i < length ns"
    and inv: "dup_inv (length ns) st" "\<forall>k \<in> fst ` set (duped st). k < i" "pairs_done ns i 0 st"
  shows "dup_inv (length ns) st' \<and> (\<forall>k \<in> fst ` set (duped st'). k < Suc i)
       \<and> pairs_done ns (Suc i) 0 st'"
proof (cases "i \<in> set (dupes st)")
  case True
  then have eq: "st' = st" using step by (simp add: row_step_def)
  have "pairs_done ns (Suc i) 0 st"
    using inv(3) True by (auto simp: pairs_done_def stored_def less_Suc_eq)
  then show ?thesis using inv eq by (auto simp: less_Suc_eq)
next
  case False
  then obtain s1 where f: "fold_err (pair_step self ns to_do i s1) [Suc i..<length ns] st = Inr st'"
    using step by (auto simp: row_step_def split: option.splits sum.splits)
  define P where "P = (\<lambda>j st. dup_inv (length ns) st \<and> i \<notin> set (dupes st)
       \<and> (\<forall>k \<in> fst ` set (duped st). k \<le> i) \<and> pairs_done ns i j st)"
  have start: "P (Suc i) st"
    using inv False by (auto simp: P_def pairs_done_def dest: less_imp_le)
  have "P (length ns) st'"
  proof (rule fold_err_upt_invariant[where P = P, OF f])
    show "Suc i \<le> length ns" using i by simp
  next
    show "P (Suc i) st" by (rule start)
  next
    fix j s s'
    assume "Suc i \<le> j" "j < length ns" "P j s" "pair_step self ns to_do i s1 j s = Inr s'"
    then show "P (Suc j) s'"
      using pair_step_inv[of self ns to_do i s1 j s s'] by (simp add: P_def)
  qed
  then show ?thesis
    by (auto simp: P_def pairs_done_def less_Suc_eq)
qed

lemma rows_inv:
  assumes f: "fold_err (row_step self ns to_do) [0..<length ns - 1] st = Inr st'"
    and st: "dupes st = []" "duped st = []"
  shows "dup_inv (length ns) st' \<and> pairs_done ns (length ns - 1) 0 st'"
proof -
  define P where "P = (\<lambda>i st. dup_inv (length ns) st \<and> (\<forall>k \<in> fst ` set (duped st). k < i)
       \<and> pairs_done ns i 0 st)"
  have start: "P 0 st" using st by (simp add: P_def dup_inv_def pairs_done_def)
  have "P (length ns - 1) st'"
  proof (rule fold_err_upt_invariant[where P = P, OF f])
    show "0 \<le> length ns - 1" by simp
  next
    show "P 0 st" by (rule start)
  next
    fix i s s'
    assume "0 \<le> i" "i < length ns - 1" "P i s" "row_step self ns to_do i s = Inr s'"
    then show "P (Suc i) s'"
      using row_step_inv[of self ns to_do i s s'] by (simp add: P_def)
  qed
  then show ?thesis by (simp add: P_def)
qed

subsection \<open>From recorded indices to names\<close>

lemma fold_update_map:
  assumes "distinct (map (\<lambda>(k, v). g k) xs)"
  shows "fold (\<lambda>(k, v) d. AList.update (g k) (h v) d) xs [] = map (\<lambda>(k, v). (g k, h v)) xs"
  using assms
proof (induction xs rule: rev_induct)
  case Nil
  then show ?case by simp
next
  case (snoc x xs)
  obtain k v where x: "x = (k, v)" by (cases x)
  have d: "distinct (map (\<lambda>(k, v). g k) xs)" and f: "g k \<notin> (\<lambda>(k, v). g k) ` set xs"
    using snoc.prems x by auto
  have "g k \<notin> fst ` set (map (\<lambda>(k, v). (g k, h v)) xs)"
    using f by (force simp: image_iff)
  then show ?case
    using snoc.IH[OF d] by (simp add: x update_fresh)
qed

lemma fold_update_const:
  "map_of (fold (\<lambda>r red. AList.update r k red) rs acc) r
     = (if r \<in> set rs then Some k else map_of acc r)"
  by (induction rs arbitrary: acc) (auto simp: update_conv')

lemma fold_update_const_distinct:
  "distinct (map fst acc) \<Longrightarrow> distinct (map fst (fold (\<lambda>r red. AList.update r k red) rs acc))"
  by (induction rs arbitrary: acc) (auto simp: distinct_update)

lemma redundants_fold_distinct:
  "distinct (map fst acc) \<Longrightarrow>
   distinct (map fst (fold (\<lambda>(k, rs) red. fold (\<lambda>r red. AList.update r k red) rs red) d acc))"
proof (induction d arbitrary: acc)
  case Nil
  then show ?case by simp
next
  case (Cons p d)
  obtain k rs where p: "p = (k, rs)" by (cases p)
  show ?case
    using Cons.IH[OF fold_update_const_distinct[OF Cons.prems, of k rs]] by (simp add: p)
qed

lemma redundants_fold_Some:
  assumes "map_of (fold (\<lambda>(k, rs) red. fold (\<lambda>r red. AList.update r k red) rs red) d acc) r = Some k"
  shows "map_of acc r = Some k \<or> (\<exists>rs. (k, rs) \<in> set d \<and> r \<in> set rs)"
  using assms
proof (induction d arbitrary: acc)
  case Nil
  then show ?case by simp
next
  case (Cons p d)
  obtain k' rs' where p: "p = (k', rs')" by (cases p)
  let ?acc = "fold (\<lambda>r red. AList.update r k' red) rs' acc"
  from Cons.prems have "map_of (fold (\<lambda>(k, rs) red. fold (\<lambda>r red. AList.update r k red) rs red) d ?acc) r = Some k"
    by (simp add: p)
  from Cons.IH[OF this] consider "map_of ?acc r = Some k" | rs where "(k, rs) \<in> set d" "r \<in> set rs"
    by blast
  then show ?case
  proof cases
    case 1
    then show ?thesis
      unfolding fold_update_const p by (cases "r \<in> set rs'") auto
  next
    case 2
    then show ?thesis by auto
  qed
qed

lemma redundants_fold_dom:
  "map_of (fold (\<lambda>(k, rs) red. fold (\<lambda>r red. AList.update r k red) rs red) d acc) r \<noteq> None
     \<longleftrightarrow> map_of acc r \<noteq> None \<or> (\<exists>k rs. (k, rs) \<in> set d \<and> r \<in> set rs)"
proof (induction d arbitrary: acc)
  case Nil
  then show ?case by simp
next
  case (Cons p d)
  obtain k' rs' where p: "p = (k', rs')" by (cases p)
  let ?acc = "fold (\<lambda>r red. AList.update r k' red) rs' acc"
  have "map_of (fold (\<lambda>(k, rs) red. fold (\<lambda>r red. AList.update r k red) rs red) (p # d) acc) r \<noteq> None
        \<longleftrightarrow> map_of ?acc r \<noteq> None \<or> (\<exists>k rs. (k, rs) \<in> set d \<and> r \<in> set rs)"
    using Cons.IH[of ?acc] by (simp add: p)
  also have "map_of ?acc r \<noteq> None \<longleftrightarrow> r \<in> set rs' \<or> map_of acc r \<noteq> None"
    unfolding fold_update_const by simp
  finally show ?case unfolding p by auto
qed

lemma convert_keeps:
  assumes "convert_seqs_to_indices self a = Inr self'"
  shows "p_duped self' = p_duped self"
  using assms by (auto simp: convert_seqs_to_indices_def split: if_splits sum.splits)

lemma finish_run_names:
  assumes "finish_run self ns st = Inr self'"
  shows "names self' = names self"
  using assms by (auto simp: finish_run_def Let_def split: if_splits option.splits)

lemma finish_run_duped:
  assumes "finish_run self ns st = Inr self'" "p_duped self = None" "p_duped self' = Some duplicated"
  shows "duped st \<noteq> []
       \<and> duplicated = fold (\<lambda>(k, v) d. AList.update (ns ! k) (map (\<lambda>i. ns ! i) v) d) (duped st) []
       \<and> (\<exists>ds0. dists st = Some ds0
             \<and> p_dists self' = Some (filter (\<lambda>(k, v). fst k \<notin> set (map (\<lambda>i. ns ! i) (dupes st))
                                                \<and> snd k \<notin> set (map (\<lambda>i. ns ! i) (dupes st))) ds0))"
proof -
  have eq: "(\<lambda>((x, y), v :: stats). x \<notin> R \<and> y \<notin> R) = (\<lambda>(k, v). fst k \<notin> R \<and> snd k \<notin> R)" for R :: "name set"
    by (auto simp: fun_eq_iff)
  show ?thesis
  proof (cases "duped st = []")
    case True
    then show ?thesis using assms by (auto simp: finish_run_def Let_def)
  next
    case False
    then show ?thesis
      using assms(1,3) unfolding finish_run_def Let_def eq
      by (auto split: option.splits)
  qed
qed

lemma run_decompose:
  assumes "run self alignment = Inr (self', shown)"
    and "names self' = Some ns"
  shows "\<exists>self1 to_do st0 st.
           names self1 = Some ns \<and> p_duped self1 = None
         \<and> (alignment = None \<longrightarrow> p_dists self1 = p_dists self)
         \<and> (alignment \<noteq> None \<longrightarrow> p_dists self1 = Some [])
         \<and> dupes st0 = [] \<and> duped st0 = [] \<and> dists st0 = p_dists self1
         \<and> fold_err (row_step self1 ns to_do) [0..<length ns - 1] st0 = Inr st
         \<and> finish_run self1 ns st = Inr self'"
proof -
  let ?self0 = "self\<lparr>p_dupes := None, p_duped := None\<rparr>"
  from assms(1) obtain self1 ns1 st where
    c: "(case alignment of None \<Rightarrow> Inr ?self0 | Some a \<Rightarrow> convert_seqs_to_indices ?self0 a) = Inr self1"
    and n: "names self1 = Some ns1"
    and l: "fold_err (row_step self1 ns1 ((real (length ns1) * real (length ns1) - 1) / 2))
              [0..<length ns1 - 1]
              \<lparr>dupes = [], duped = [], dists = p_dists self1, done_count = 0, displayed = []\<rparr> = Inr st"
    and f: "finish_run self1 ns1 st = Inr self'"
    by (auto simp: run_def Let_def split: sum.splits option.splits)
  have "ns1 = ns" using finish_run_names[OF f] n assms(2) by simp
  moreover have "p_duped self1 = None"
    using c convert_keeps by (cases alignment) auto
  moreover have "alignment = None \<longrightarrow> p_dists self1 = p_dists self"
    using c by auto
  moreover have "alignment \<noteq> None \<longrightarrow> p_dists self1 = Some []"
    using c convert_dists by (cases alignment) auto
  ultimately show ?thesis using n l f by (intro exI conjI) (simp_all)
qed

lemma nth_eq_distinct:
  "distinct ns \<Longrightarrow> a < length ns \<Longrightarrow> b < length ns \<Longrightarrow> ns ! a = ns ! b \<Longrightarrow> a = b"
  by (simp add: nth_eq_iff_index_eq)

text \<open>What the invariants give for the names.\<close>

lemma duplicates_names:
  assumes inv: "dup_inv (length ns) st" and dist: "distinct ns"
    and dup: "duplicated = fold (\<lambda>(k, v) d. AList.update (ns ! k) (map (\<lambda>i. ns ! i) v) d) (duped st) []"
  defines "red \<equiv> redundants_of duplicated"
  shows "duplicated = map (\<lambda>(k, v). (ns ! k, map (\<lambda>i. ns ! i) v)) (duped st)"
    and "distinct (map fst red)"
    and "fst ` set red = (\<lambda>j. ns ! j) ` set (dupes st)"
    and "\<forall>(add, alias) \<in> set red. alias \<notin> fst ` set red \<and> add \<in> set ns \<and> alias \<in> set ns"
    and "\<And>A bs B. (A, bs) \<in> set duplicated \<Longrightarrow> B \<in> set bs
           \<Longrightarrow> map_of red B = Some A \<and> A \<notin> fst ` set red \<and> A \<in> set ns"
proof -
  let ?n = "length ns"
  have d: "distinct (map fst (duped st))" using inv by (simp add: dup_inv_def)
  have a: "\<And>k vs. (k, vs) \<in> set (duped st) \<Longrightarrow> k \<notin> set (dupes st) \<and> k < ?n \<and> set vs \<subseteq> set (dupes st)"
    using inv by (auto simp: dup_inv_def)
  have b: "\<And>k vs k' vs'. (k, vs) \<in> set (duped st) \<Longrightarrow> (k', vs') \<in> set (duped st) \<Longrightarrow> k \<noteq> k'
            \<Longrightarrow> set vs \<inter> set vs' = {}"
    using inv by (fastforce simp: dup_inv_def)
  have c: "\<And>x. x \<in> set (dupes st) \<Longrightarrow> x < ?n \<and> (\<exists>(k, vs) \<in> set (duped st). x \<in> set vs)"
    using inv by (auto simp: dup_inv_def)
  have keys_lt: "\<forall>k \<in> set (map fst (duped st)). k < ?n" using a by auto
  have dk: "distinct (map (\<lambda>k. ns ! k) (map fst (duped st)))"
    using d keys_lt dist by (auto simp: distinct_map inj_on_def nth_eq_iff_index_eq)
  have e: "(\<lambda>(k, v :: nat list). ns ! k) = (\<lambda>k. ns ! k) \<circ> fst"
    by (auto simp: fun_eq_iff)
  have "distinct (map (\<lambda>(k, v). ns ! k) (duped st))"
    unfolding e map_map[symmetric] by (rule dk)
  from fold_update_map[OF this, of "map (\<lambda>i. ns ! i)"]
  show m: "duplicated = map (\<lambda>(k, v). (ns ! k, map (\<lambda>i. ns ! i) v)) (duped st)"
    unfolding dup .
  have mem: "(A, bs) \<in> set duplicated \<longleftrightarrow> (\<exists>k v. (k, v) \<in> set (duped st) \<and> A = ns ! k \<and> bs = map (\<lambda>i. ns ! i) v)"
    for A bs
    unfolding m by auto
  show dr: "distinct (map fst red)"
    unfolding red_def redundants_of_def by (rule redundants_fold_distinct) simp
  have dom: "x \<in> fst ` set red \<longleftrightarrow> (\<exists>k rs. (k, rs) \<in> set duplicated \<and> x \<in> set rs)" for x
    using redundants_fold_dom[of duplicated "[]" x]
    by (simp add: red_def redundants_of_def map_of_eq_None_iff)
  show keys: "fst ` set red = (\<lambda>j. ns ! j) ` set (dupes st)"
  proof (intro set_eqI iffI)
    fix x assume "x \<in> fst ` set red"
    then obtain k rs where "(k, rs) \<in> set duplicated" "x \<in> set rs" using dom by blast
    then obtain k' v where kv: "(k', v) \<in> set (duped st)" "rs = map (\<lambda>i. ns ! i) v"
      using mem by blast
    then obtain j where "j \<in> set v" "x = ns ! j" using \<open>x \<in> set rs\<close> by auto
    then show "x \<in> (\<lambda>j. ns ! j) ` set (dupes st)" using a[OF kv(1)] by auto
  next
    fix x assume "x \<in> (\<lambda>j. ns ! j) ` set (dupes st)"
    then obtain j where j: "j \<in> set (dupes st)" "x = ns ! j" by auto
    then obtain k vs where kv: "(k, vs) \<in> set (duped st)" "j \<in> set vs" using c by blast
    then have "(ns ! k, map (\<lambda>i. ns ! i) vs) \<in> set duplicated" "x \<in> set (map (\<lambda>i. ns ! i) vs)"
      using mem j(2) by auto
    then show "x \<in> fst ` set red" using dom by blast
  qed
  have alias_ok: "A \<notin> fst ` set red \<and> A \<in> set ns" if "(A, bs) \<in> set duplicated" for A bs
  proof -
    from that obtain k v where kv: "(k, v) \<in> set (duped st)" "A = ns ! k" using mem by blast
    have k: "k \<notin> set (dupes st)" "k < ?n" using a[OF kv(1)] by auto
    have "A \<notin> (\<lambda>j. ns ! j) ` set (dupes st)"
    proof
      assume "A \<in> (\<lambda>j. ns ! j) ` set (dupes st)"
      then obtain j where j: "j \<in> set (dupes st)" "A = ns ! j" by auto
      then have "j < ?n" using c by auto
      then have "k = j" using nth_eq_distinct[OF dist k(2)] kv(2) j(2) by simp
      then show False using k(1) j(1) by simp
    qed
    then show ?thesis using keys kv(2) k(2) by simp
  qed
  have some: "\<exists>rs. (als, rs) \<in> set duplicated \<and> add \<in> set rs" if "map_of red add = Some als"
    for add als
    using redundants_fold_Some[of duplicated "[]" add als] that
    by (simp add: red_def redundants_of_def)
  show "\<forall>(add, alias) \<in> set red. alias \<notin> fst ` set red \<and> add \<in> set ns \<and> alias \<in> set ns"
  proof (intro ballI, clarify)
    fix add als assume in_red: "(add, als) \<in> set red"
    then have "map_of red add = Some als" using dr by (simp add: map_of_is_SomeI)
    then obtain rs where rs: "(als, rs) \<in> set duplicated" "add \<in> set rs" using some by blast
    have "add \<in> fst ` set red" using in_red by (force simp: image_iff)
    then have "add \<in> set ns" using keys c by auto
    then show "als \<notin> fst ` set red \<and> add \<in> set ns \<and> als \<in> set ns"
      using alias_ok[OF rs(1)] by simp
  qed
  show "map_of red B = Some A \<and> A \<notin> fst ` set red \<and> A \<in> set ns"
    if AB: "(A, bs) \<in> set duplicated" "B \<in> set bs" for A bs B
  proof -
    have "B \<in> fst ` set red" using dom AB by blast
    then obtain A' where A': "map_of red B = Some A'"
      by (cases "map_of red B") (auto simp: map_of_eq_None_iff)
    then obtain rs' where rs': "(A', rs') \<in> set duplicated" "B \<in> set rs'" using some by blast
    from AB obtain k v where kv: "(k, v) \<in> set (duped st)" "A = ns ! k" "bs = map (\<lambda>i. ns ! i) v"
      using mem by blast
    from rs' obtain k' v' where kv': "(k', v') \<in> set (duped st)" "A' = ns ! k'" "rs' = map (\<lambda>i. ns ! i) v'"
      using mem by blast
    obtain j where j: "j \<in> set v" "B = ns ! j" using AB(2) kv(3) by auto
    obtain j' where j': "j' \<in> set v'" "B = ns ! j'" using rs'(2) kv'(3) by auto
    have "j < ?n" "j' < ?n" using a[OF kv(1)] a[OF kv'(1)] j(1) j'(1) c by auto
    then have "j = j'" using nth_eq_distinct[OF dist] j(2) j'(2) by simp
    then have "set v \<inter> set v' \<noteq> {}" using j(1) j'(1) by auto
    then have "k = k'" using b[OF kv(1) kv'(1)] by blast
    then show ?thesis using A' kv(2) kv'(2) alias_ok[OF AB(1)] by simp
  qed
qed

subsection \<open>Duplicates in the expanded dictionaries\<close>

lemma map_of_map_values:
  "map_of (map (\<lambda>(k, v). (k, f v)) d) k = map_option f (map_of d k)"
  by (induction d) auto

lemma expand_duplicates:
  assumes run: "run self alignment = Inr (self', shown)"
    and sym0: "alignment = None \<longrightarrow> (\<forall>ds. p_dists self = Some ds \<longrightarrow> symmetric_pairs ds)"
    and ns: "names self' = Some ns" "distinct ns"
    and dup: "p_duped self' = Some duplicated" "(A, bs) \<in> set duplicated" "B \<in> set bs"
    and C: "C \<in> set ns" "C \<noteq> A" "C \<noteq> B"
  shows "\<exists>ds. p_dists self' = Some ds
          \<and> (\<forall>f. \<exists>pwise. expand self' (map (\<lambda>(k, v). (k, f v)) ds) = Inr pwise
                 \<and> map_of pwise (B, C) = map_of pwise (A, C)
                 \<and> map_of pwise (B, C) \<noteq> None
                 \<and> map_of pwise (A, B) = Some (PyFloat 0)
                 \<and> map_of pwise (B, A) = Some (PyFloat 0))"
proof -
  from run_decompose[OF run ns(1)] obtain self1 to_do st0 st where
    s1: "names self1 = Some ns" "p_duped self1 = None"
    and d0: "alignment = None \<longrightarrow> p_dists self1 = p_dists self"
      "alignment \<noteq> None \<longrightarrow> p_dists self1 = Some []"
    and st0: "dupes st0 = []" "duped st0 = []" "dists st0 = p_dists self1"
    and loop: "fold_err (row_step self1 ns to_do) [0..<length ns - 1] st0 = Inr st"
    and fin: "finish_run self1 ns st = Inr self'"
    by blast
  have "sym_opt (dists st0)"
    using d0 sym0 st0(3) by (cases alignment) (auto simp: sym_opt_def symmetric_pairs_def)
  then have sym_st: "sym_opt (dists st)" by (rule outer_sym[OF loop])
  from rows_inv[OF loop st0(1,2)]
  have inv: "dup_inv (length ns) st" and pdone: "pairs_done ns (length ns - 1) 0 st" by simp_all
  from finish_run_duped[OF fin s1(2) dup(1)] obtain ds0 where
    ne: "duped st \<noteq> []"
    and dd: "duplicated = fold (\<lambda>(k, v) d. AList.update (ns ! k) (map (\<lambda>i. ns ! i) v) d) (duped st) []"
    and ds0: "dists st = Some ds0"
    and pd: "p_dists self' = Some (filter (\<lambda>(k, v). fst k \<notin> set (map (\<lambda>i. ns ! i) (dupes st))
                                                \<and> snd k \<notin> set (map (\<lambda>i. ns ! i) (dupes st))) ds0)"
    by blast
  define ds where "ds = filter (\<lambda>(k, v). fst k \<notin> set (map (\<lambda>i. ns ! i) (dupes st))
                                                \<and> snd k \<notin> set (map (\<lambda>i. ns ! i) (dupes st))) ds0"
  define red where "red = redundants_of duplicated"
  note nm = duplicates_names[OF inv ns(2) dd, folded red_def]
  have keys: "fst ` set red = set (map (\<lambda>i. ns ! i) (dupes st))"
    using nm(3) by simp
  have AB: "map_of red B = Some A" "A \<notin> fst ` set red" "A \<in> set ns"
    using nm(5)[OF dup(2,3)] by simp_all
  have Bk: "B \<in> fst ` set red"
    using AB(1) by (metis map_of_eq_None_iff option.distinct(1))
  have Bn: "B \<in> set ns"
    using Bk keys inv by (auto simp: dup_inv_def)
  have AneB: "A \<noteq> B" using AB(2) Bk by auto
  have rB: "representative red B = A" using AB(1) by (simp add: representative_def)
  have rA: "representative red A = A" using AB(2) by (rule representative_notin)
  have sym_ds0: "symmetric_pairs ds0" using sym_st ds0 by (simp add: sym_opt_def)
  have lookup: "map_of ds k = (if fst k \<notin> fst ` set red \<and> snd k \<notin> fst ` set red then map_of ds0 k else None)"
    for k
    unfolding ds_def keys by (rule map_of_filter_keys)
  have sym_ds: "symmetric_pairs ds"
  proof (rule symmetric_pairsI)
    fix x y
    show "map_of ds (x, y) = map_of ds (y, x)"
      using symmetric_pairsD[OF sym_ds0, of x y] by (auto simp: lookup)
  qed
  \<comment> \<open>a pair of two names that are not duplicates is stored\<close>
  have present: "map_of ds (A, C) \<noteq> None" if Cn: "C \<notin> fst ` set red"
  proof -
    obtain a where a: "a < length ns" "A = ns ! a" using AB(3) by (auto simp: in_set_conv_nth)
    obtain c where c: "c < length ns" "C = ns ! c" using C(1) by (auto simp: in_set_conv_nth)
    have ad: "a \<notin> set (dupes st)" using AB(2) a(2) keys by auto
    have cd: "c \<notin> set (dupes st)" using Cn c(2) keys by auto
    have ac: "a \<noteq> c" using C(2) a(2) c(2) by auto
    have "map_of ds0 (A, C) \<noteq> None"
    proof (cases "a < c")
      case True
      then have "stored ns st a c" using pdone c(1) by (simp add: pairs_done_def)
      then show ?thesis using ad cd ds0 a(2) c(2) by (auto simp: stored_def)
    next
      case False
      then have "c < a" using ac by simp
      then have "stored ns st c a" using pdone a(1) by (simp add: pairs_done_def)
      then have "map_of ds0 (C, A) \<noteq> None" using ad cd ds0 a(2) c(2) by (auto simp: stored_def)
      then show ?thesis using symmetric_pairsD[OF sym_ds0, of A C] by simp
    qed
    then show ?thesis using AB(2) Cn by (simp add: lookup)
  qed
  have ex: "\<exists>pwise. expand self' (map (\<lambda>(k, v). (k, f v)) ds) = Inr pwise
                 \<and> map_of pwise (B, C) = map_of pwise (A, C)
                 \<and> map_of pwise (B, C) \<noteq> None
                 \<and> map_of pwise (A, B) = Some (PyFloat 0)
                 \<and> map_of pwise (B, A) = Some (PyFloat 0)" for f
  proof -
    define pw0 where "pw0 = map (\<lambda>(k, v). (k, f v)) ds"
    define pw where "pw = fold (\<lambda>(add, alias) pw. fold (expand_name add alias) ns pw) red pw0"
    have sym_pw0: "symmetric_pairs pw0" unfolding pw0_def using sym_ds by (rule symmetric_map)
    have "duplicated \<noteq> []" using ne nm(1) by simp
    then have e: "expand self' pw0 = Inr pw"
      using dup(1) ns(1) by (simp add: expand_def pw_def red_def)
    have ch: "map_of pw (x, y) =
       (if x \<notin> fst ` set red \<and> y \<notin> fst ` set red then map_of pw0 (x, y)
        else Some (if representative red x = representative red y then PyFloat 0
                   else dict_get pw0 (representative red x, representative red y)))"
      if "x \<in> set ns" "y \<in> set ns" "x \<noteq> y" for x y
      unfolding pw_def by (rule expand_fold_map_of[OF nm(2) nm(4) sym_pw0 that])
    have BC: "map_of pw (B, C) = Some (if A = representative red C then PyFloat 0
                   else dict_get pw0 (A, representative red C))"
      using ch[OF Bn C(1)] C(3) Bk rB by simp
    have AC: "map_of pw (A, C) = Some (if A = representative red C then PyFloat 0
                   else dict_get pw0 (A, representative red C))"
    proof (cases "C \<in> fst ` set red")
      case True
      then show ?thesis using ch[OF AB(3) C(1)] C(2) rA by simp
    next
      case False
      then have rC: "representative red C = C" by (rule representative_notin)
      obtain v where "map_of ds (A, C) = Some v" using present[OF False] by auto
      then have "map_of pw0 (A, C) = Some (dict_get pw0 (A, C))"
        by (simp add: pw0_def map_of_map_values dict_get_def)
      then show ?thesis using ch[OF AB(3) C(1)] C(2) False AB(2) rC by simp
    qed
    have ABz: "map_of pw (A, B) = Some (PyFloat 0)"
      using ch[OF AB(3) Bn AneB] Bk rA rB by simp
    have BAz: "map_of pw (B, A) = Some (PyFloat 0)"
      using ch[OF Bn AB(3)] AneB Bk rA rB by simp
    show ?thesis
      using e BC AC ABz BAz unfolding pw0_def by (intro exI[of _ pw]) simp
  qed
  show ?thesis
    using pd ex unfolding ds_def[symmetric] by blast
qed

text \<open>
  C4. After a run that returns, over distinct names, let \<open>B\<close> be recorded as a duplicate of
  \<open>A\<close> (\<open>B\<close> is in the list stored under \<open>A\<close> in \<open>duplicated\<close>), and let \<open>C\<close> be any other
  name. Then \<open>_expand\<close> succeeds on the dictionary of every statistic, and in the expanded
  dictionary the entry of \<open>(B, C)\<close> is present and equals the entry of \<open>(A, C)\<close>, and the
  entries of \<open>(A, B)\<close> and \<open>(B, A)\<close> are \<open>0\<close>; in particular this holds for the dictionary of
  \<open>get_pairwise_distances\<close> with \<open>include_duplicates\<close>.
\<close>

theorem duplicate_copies_representative:
  assumes "run self alignment = Inr (self', shown)"
    and "alignment = None \<longrightarrow> (\<forall>ds. p_dists self = Some ds \<longrightarrow> symmetric_pairs ds)"
    and "names self' = Some ns" and "distinct ns"
    and "p_duped self' = Some duplicated" and "(A, bs) \<in> set duplicated" and "B \<in> set bs"
    and "C \<in> set ns" and "C \<noteq> A" and "C \<noteq> B"
  shows "(\<exists>ds. p_dists self' = Some ds
          \<and> (\<forall>f. \<exists>pwise. expand self' (map (\<lambda>(k, v). (k, f v)) ds) = Inr pwise
                 \<and> map_of pwise (B, C) = map_of pwise (A, C)
                 \<and> map_of pwise (B, C) \<noteq> None
                 \<and> map_of pwise (A, B) = Some (PyFloat 0)
                 \<and> map_of pwise (B, A) = Some (PyFloat 0)))
       \<and> (\<exists>pwise. get_pairwise_distances self' True = Inr (Some pwise)
                 \<and> map_of pwise (B, C) = map_of pwise (A, C)
                 \<and> map_of pwise (B, C) \<noteq> None
                 \<and> map_of pwise (A, B) = Some (PyFloat 0)
                 \<and> map_of pwise (B, A) = Some (PyFloat 0))"
proof -
  from expand_duplicates[OF assms] obtain ds where
    ds: "p_dists self' = Some ds"
    and ex: "\<And>f. \<exists>pwise. expand self' (map (\<lambda>(k, v). (k, f v)) ds) = Inr pwise
                 \<and> map_of pwise (B, C) = map_of pwise (A, C)
                 \<and> map_of pwise (B, C) \<noteq> None
                 \<and> map_of pwise (A, B) = Some (PyFloat 0)
                 \<and> map_of pwise (B, A) = Some (PyFloat 0)"
    by blast
  from ex[of stats_dist] obtain pwise where
    pw: "expand self' (map (\<lambda>(k, v). (k, stats_dist v)) ds) = Inr pwise"
      "map_of pwise (B, C) = map_of pwise (A, C)" "map_of pwise (B, C) \<noteq> None"
      "map_of pwise (A, B) = Some (PyFloat 0)" "map_of pwise (B, A) = Some (PyFloat 0)"
    by blast
  have "get_pairwise_distances self' True = Inr (Some pwise)"
    using ds pw(1) by (simp add: get_pairwise_distances_def)
  then show ?thesis using ds ex pw by blast
qed

theorem duplicate_copies_representative_witness:
  "(case run \<lparr>p_dim = 4, char_to_indices = (replicate 90 (- 9))[84 := 0, 67 := 1, 65 := 2, 71 := 3],
              names = None, indexed_seqs = None, p_dists = None, p_dupes = None, p_duped = None,
              func = (\<lambda>m. Inr (hamming m))\<rparr>
            (Some \<lparr>aln_names = [''a'', ''b'', ''c'', ''d''],
                    get_gapped_seq = (\<lambda>n. if n = ''a'' \<or> n = ''b'' then ''ATGC'' else ''ATCA''),
                    moltype_is_instance = True\<rparr>) of
      Inl e \<Rightarrow> False
    | Inr (self, shown) \<Rightarrow>
        names self = Some [''a'', ''b'', ''c'', ''d'']
        \<and> p_duped self = Some [(''a'', [''b'']), (''c'', [''d''])]
        \<and> (\<exists>pwise. get_pairwise_distances self True = Inr (Some pwise)
              \<and> map_of pwise (''b'', ''d'') = map_of pwise (''a'', ''d'')
              \<and> map_of pwise (''b'', ''d'') = Some (PyFloat 2)
              \<and> map_of pwise (''a'', ''b'') = Some (PyFloat 0)))"
proof -
  let ?r = "run \<lparr>p_dim = 4, char_to_indices = (replicate 90 (- 9))[84 := 0, 67 := 1, 65 := 2, 71 := 3],
              names = None, indexed_seqs = None, p_dists = None, p_dupes = None, p_duped = None,
              func = (\<lambda>m. Inr (hamming m))\<rparr>
            (Some \<lparr>aln_names = [''a'', ''b'', ''c'', ''d''],
                    get_gapped_seq = (\<lambda>n. if n = ''a'' \<or> n = ''b'' then ''ATGC'' else ''ATCA''),
                    moltype_is_instance = True\<rparr>)"
  have ev: "case ?r of Inl e \<Rightarrow> False
            | Inr (self, shown) \<Rightarrow>
                names self = Some [''a'', ''b'', ''c'', ''d'']
                \<and> p_duped self = Some [(''a'', [''b'']), (''c'', [''d''])]
                \<and> map_option (\<lambda>pw. map_of pw (''b'', ''d''))
                     (case get_pairwise_distances self True of Inl e \<Rightarrow> None | Inr r \<Rightarrow> r)
                   = Some (Some (PyFloat 2))"
    by code_simp
  then obtain self' shown where r: "?r = Inr (self', shown)"
    and n: "names self' = Some [''a'', ''b'', ''c'', ''d'']"
    and d: "p_duped self' = Some [(''a'', [''b'']), (''c'', [''d''])]"
    and v: "map_option (\<lambda>pw. map_of pw (''b'', ''d''))
                     (case get_pairwise_distances self' True of Inl e \<Rightarrow> None | Inr r \<Rightarrow> r)
                   = Some (Some (PyFloat 2))"
    by (cases ?r) auto
  from duplicate_copies_representative[OF r _ n _ d, of "''a''" "[''b'']" "''b''" "''d''"]
  obtain pwise where pw: "get_pairwise_distances self' True = Inr (Some pwise)"
    "map_of pwise (''b'', ''d'') = map_of pwise (''a'', ''d'')"
    "map_of pwise (''a'', ''b'') = Some (PyFloat 0)"
    by auto
  from v pw(1) have "map_of pwise (''b'', ''d'') = Some (PyFloat 2)" by simp
  with pw n d r show ?thesis by auto
qed

subsection \<open>The progress values in general\<close>

text \<open>
  The \<open>k\<close>-th call of \<open>ui.display\<close> of a run over \<open>N\<close> names (counting from zero) shows the
  value \<open>k / ((N * N - 1) / 2)\<close>.
\<close>

lemma pair_step_progress:
  assumes "pair_step self ns to_do i s1 j st = Inr st'"
    and "map snd (displayed st) = map (\<lambda>k. real k / to_do) [0..<length (displayed st)]"
    and "done_count st = real (length (displayed st))"
  shows "map snd (displayed st') = map (\<lambda>k. real k / to_do) [0..<length (displayed st')]
       \<and> done_count st' = real (length (displayed st'))"
  using assms
  by (auto simp: pair_step_def Let_def split: if_splits option.splits sum.splits prod.splits)

lemma run_progress_values:
  assumes "run self alignment = Inr (self', shown)" and "names self' = Some ns"
  shows "map snd shown
         = map (\<lambda>k. real k / ((real (length ns) * real (length ns) - 1) / 2)) [0..<length shown]"
proof -
  let ?self0 = "self\<lparr>p_dupes := None, p_duped := None\<rparr>"
  define to_do where "to_do = (real (length ns) * real (length ns) - 1) / 2"
  define P where "P = (\<lambda>st :: run_state. map snd (displayed st) = map (\<lambda>k. real k / to_do) [0..<length (displayed st)]
       \<and> done_count st = real (length (displayed st)))"
  from assms(1) obtain self1 ns1 st where
    n: "names self1 = Some ns1"
    and l: "fold_err (row_step self1 ns1 ((real (length ns1) * real (length ns1) - 1) / 2))
              [0..<length ns1 - 1]
              \<lparr>dupes = [], duped = [], dists = p_dists self1, done_count = 0, displayed = []\<rparr> = Inr st"
    and f: "finish_run self1 ns1 st = Inr self'"
    and sh: "shown = displayed st"
    by (auto simp: run_def Let_def split: sum.splits option.splits)
  have ns1: "ns1 = ns" using finish_run_names[OF f] n assms(2) by simp
  have row: "P s'" if rs: "row_step self1 ns to_do i s = Inr s'" and Ps: "P s" for i s s'
  proof (cases "i \<in> set (dupes s)")
    case True
    then show ?thesis using rs Ps by (simp add: row_step_def)
  next
    case False
    then obtain s1 where "fold_err (pair_step self1 ns to_do i s1) [i + 1..<length ns] s = Inr s'"
      using rs by (auto simp: row_step_def split: option.splits sum.splits)
    then show ?thesis
    proof (rule fold_err_invariant[where P = P])
      show "P s" by (rule Ps)
    next
      fix j t t'
      assume "P t" "pair_step self1 ns to_do i s1 j t = Inr t'"
      then show "P t'" using pair_step_progress[of self1 ns to_do i s1 j t t'] by (simp add: P_def)
    qed
  qed
  have "P st"
  proof (rule fold_err_invariant[OF l[unfolded ns1, folded to_do_def], where P = P])
    show "P \<lparr>dupes = [], duped = [], dists = p_dists self1, done_count = 0, displayed = []\<rparr>"
      by (simp add: P_def)
  next
    fix i s s'
    assume "P s" "row_step self1 ns to_do i s = Inr s'"
    then show "P s'" using row by blast
  qed
  then show ?thesis by (simp add: P_def sh to_do_def)
qed

end
